theory Spec2Isabelle
  imports Main "HOL-Library.AList"
begin

section \<open>Codes and character classification\<close>

text \<open>
  A code is what the host tokenizer hands to a state function: a character code, one of the
  negative sentinels of \<^verbatim>\<open>micromark-util-symbol\<close>, or \<^verbatim>\<open>null\<close> at end of input.
  \<^verbatim>\<open>null\<close> is \<open>None\<close>.
\<close>

type_synonym code = "int option"

definition eof :: code where "eof = None"
definition carriageReturn :: int where "carriageReturn = -5"
definition lineFeed :: int where "lineFeed = -4"
definition carriageReturnLineFeed :: int where "carriageReturnLineFeed = -3"
definition horizontalTab :: int where "horizontalTab = -2"
definition virtualSpace :: int where "virtualSpace = -1"
definition space :: int where "space = 32"
definition lessThan_code :: int where "lessThan_code = 60"
definition leftCurlyBrace :: int where "leftCurlyBrace = 123"

lemmas codes_defs = eof_def carriageReturn_def lineFeed_def carriageReturnLineFeed_def
  horizontalTab_def virtualSpace_def space_def lessThan_code_def leftCurlyBrace_def

text \<open>
  \<^verbatim>\<open>markdownLineEnding(code)\<close> is \<^verbatim>\<open>code !== null && code < codes.horizontalTab\<close> and
  \<^verbatim>\<open>markdownSpace(code)\<close> is true of the tab, the virtual space and the space
  (\<^verbatim>\<open>micromark-util-character\<close>).
\<close>

fun markdownLineEnding :: "code \<Rightarrow> bool" where
  "markdownLineEnding None = False"
| "markdownLineEnding (Some c) = (c < horizontalTab)"

fun markdownSpace :: "code \<Rightarrow> bool" where
  "markdownSpace None = False"
| "markdownSpace (Some c) = (c = horizontalTab \<or> c = virtualSpace \<or> c = space)"

section \<open>Extension construction (\<^verbatim>\<open>dev/lib/syntax.js\<close>)\<close>

text \<open>
  The options object. A field that is absent, \<^verbatim>\<open>null\<close> or \<^verbatim>\<open>undefined\<close> is \<open>None\<close>.
  Of the acorn instance only the two entry points the constructor tests are kept:
  whether \<^verbatim>\<open>acorn.parse\<close> and \<^verbatim>\<open>acorn.parseExpressionAt\<close> are there.
  Acorn's options are a dictionary from option names to values.
\<close>

record acorn =
  parse :: bool
  parseExpressionAt :: bool

datatype jsvalue = JNumber int | JString string | JBoolean bool

type_synonym acornOptions = "(string \<times> jsvalue) list"

record options =
  opt_acorn :: "acorn option"
  opt_acornOptions :: "acornOptions option"
  opt_addResult :: "bool option"

text \<open>\<^verbatim>\<open>Object.assign(target, ...sources)\<close> on dictionaries kept as association lists:
  a later source overwrites the keys it has.\<close>

fun object_assign :: "(string \<times> jsvalue) list \<Rightarrow> (string \<times> jsvalue) list \<Rightarrow> (string \<times> jsvalue) list" where
  "object_assign target [] = target"
| "object_assign target ((k, v) # src) = object_assign (AList.update k v target) src"

text \<open>What \<^verbatim>\<open>jsxFlow\<close> and \<^verbatim>\<open>jsxText\<close> are called with: the parser and the options record
  \<^verbatim>\<open>{acornOptions, addResult}\<close>. \<^verbatim>\<open>jsxText\<close> lives in \<^verbatim>\<open>jsx-text.js\<close>; only its call
  is modelled.\<close>

record construct_options =
  co_acornOptions :: "acornOptions option"
  co_addResult :: "bool option"

datatype mdx_construct =
  JsxFlow "acorn option" construct_options
| JsxText "acorn option" construct_options

record extension =
  ext_flow :: "int \<rightharpoonup> mdx_construct"
  ext_text :: "int \<rightharpoonup> mdx_construct"

datatype config_error =
  ExpectedProperAcorn   \<comment> \<open>\<^verbatim>\<open>Expected a proper `acorn` instance passed in as `options.acorn`\<close>\<close>
| ExpectedAcorn         \<comment> \<open>\<^verbatim>\<open>Expected an `acorn` instance passed in as `options.acorn`\<close>\<close>

text \<open>JavaScript truthiness of the two optional fields the constructor tests.\<close>

definition truthy_bool :: "bool option \<Rightarrow> bool" where
  "truthy_bool b = (b = Some True)"

definition or_undefined :: "bool option \<Rightarrow> bool option" where
  "or_undefined b = (if truthy_bool b then b else None)"

definition settings_of :: "options option \<Rightarrow> options" where
  "settings_of opts = (case opts of
     None \<Rightarrow> \<lparr>opt_acorn = None, opt_acornOptions = None, opt_addResult = None\<rparr>
   | Some s \<Rightarrow> s)"

definition default_acornOptions :: acornOptions where
  "default_acornOptions = [(''ecmaVersion'', JNumber 2024), (''sourceType'', JString ''module'')]"

definition build_extension :: "acorn option \<Rightarrow> acornOptions option \<Rightarrow> options \<Rightarrow> extension" where
  "build_extension ac ao settings =
     (let co = \<lparr>co_acornOptions = ao, co_addResult = or_undefined (opt_addResult settings)\<rparr>
      in \<lparr>ext_flow = [lessThan_code \<mapsto> JsxFlow ac co], ext_text = [lessThan_code \<mapsto> JsxText ac co]\<rparr>)"

definition mdxJsx :: "options option \<Rightarrow> config_error + extension" where
  "mdxJsx opts =
     (let settings = settings_of opts in
      case opt_acorn settings of
        Some ac \<Rightarrow>
          if \<not> parse ac \<or> \<not> parseExpressionAt ac then Inl ExpectedProperAcorn
          else Inr (build_extension (Some ac)
                 (Some (object_assign
                    (object_assign default_acornOptions
                       (case opt_acornOptions settings of None \<Rightarrow> [] | Some o' \<Rightarrow> o'))
                    [(''locations'', JBoolean True)]))
                 settings)
      | None \<Rightarrow>
          if opt_acornOptions settings \<noteq> None \<or> truthy_bool (opt_addResult settings)
          then Inl ExpectedAcorn
          else Inr (build_extension None None settings))"

text \<open>The claim's words: the wiring is incompatible when parser options or a requested
  \<^verbatim>\<open>addResult\<close> come without a parser, or the parser lacks one of its two entry points.\<close>

definition incompatible_wiring :: "options option \<Rightarrow> bool" where
  "incompatible_wiring opts =
     (let s = settings_of opts in
      (opt_acorn s = None \<and> (opt_acornOptions s \<noteq> None \<or> opt_addResult s = Some True))
      \<or> (\<exists>ac. opt_acorn s = Some ac \<and> (\<not> parse ac \<or> \<not> parseExpressionAt ac)))"

section \<open>The host tokenizer, as the scanner uses it\<close>

text \<open>
  The scanner of \<^verbatim>\<open>tokenizeJsxFlow\<close> drives the host's \<^verbatim>\<open>effects\<close>. A state function is
  called with the code at the running position; a code stays current until it is consumed.
  The machine is what the effects read and write: the codes not yet consumed (end of input
  comes after the last), \<^verbatim>\<open>self.previous\<close>, the events so far, and the number of codes
  consumed, which stands for \<^verbatim>\<open>now()\<close>.
\<close>

datatype kind = Enter | Exit

type_synonym sevent = "kind \<times> string \<times> nat"

record machine =
  m_input :: "int list"
  m_previous :: code
  m_events :: "sevent list"
  m_pos :: nat

definition current :: "machine \<Rightarrow> code" where
  "current m = (case m_input m of [] \<Rightarrow> None | c # _ \<Rightarrow> Some c)"

definition enter :: "string \<Rightarrow> machine \<Rightarrow> machine" where
  "enter ty m = m\<lparr>m_events := m_events m @ [(Enter, ty, m_pos m)]\<rparr>"

definition exit :: "string \<Rightarrow> machine \<Rightarrow> machine" where
  "exit ty m = m\<lparr>m_events := m_events m @ [(Exit, ty, m_pos m)]\<rparr>"

text \<open>\<^verbatim>\<open>effects.consume(code)\<close>. The source never consumes at end of input; there
  the model leaves the machine as it is.\<close>

definition consume :: "machine \<Rightarrow> machine" where
  "consume m = (case m_input m of
     [] \<Rightarrow> m
   | c # cs \<Rightarrow> m\<lparr>m_input := cs, m_previous := Some c, m_pos := Suc (m_pos m)\<rparr>)"

text \<open>
  \<^verbatim>\<open>factorySpace(effects, ok, type)\<close> of \<^verbatim>\<open>micromark-factory-space\<close>, called without a
  limit: at a space code it enters \<open>type\<close>, consumes every space code that follows
  (the state \<^verbatim>\<open>prefix\<close>), exits and goes on to \<open>ok\<close>; at any other code it goes on to
  \<open>ok\<close> at once.
\<close>

function prefix :: "machine \<Rightarrow> machine" where
  "prefix m = (if markdownSpace (current m) then prefix (consume m) else m)"
  by pat_completeness auto
termination
  by (relation "measure (\<lambda>m. length (m_input m))")
     (auto simp: consume_def current_def split: list.splits)

declare prefix.simps [simp del]

definition factorySpace :: "string \<Rightarrow> machine \<Rightarrow> machine" where
  "factorySpace ty m = (if markdownSpace (current m) then exit ty (prefix (enter ty m)) else m)"

lemma length_input_prefix: "length (m_input (prefix m)) \<le> length (m_input m)"
proof (induction m rule: prefix.induct)
  case (1 m)
  show ?case
  proof (cases "markdownSpace (current m)")
    case True
    with 1 have "length (m_input (prefix (consume m))) \<le> length (m_input (consume m))" by simp
    also have "\<dots> \<le> length (m_input m)" by (simp add: consume_def split: list.splits)
    finally show ?thesis using True by (subst prefix.simps) simp
  next
    case False
    then show ?thesis by (subst prefix.simps) simp
  qed
qed

lemma length_input_factorySpace:
  "markdownSpace (current m) \<Longrightarrow> length (m_input (factorySpace ty m)) < length (m_input m)"
proof -
  assume sp: "markdownSpace (current m)"
  then have sp': "markdownSpace (current (enter ty m))" by (simp add: current_def enter_def)
  have "length (m_input (prefix (enter ty m))) = length (m_input (prefix (consume (enter ty m))))"
    using sp' by (subst prefix.simps) simp
  also have "\<dots> \<le> length (m_input (consume (enter ty m)))" by (rule length_input_prefix)
  also have "\<dots> < length (m_input m)"
    using sp by (auto simp: consume_def enter_def current_def split: list.splits)
  finally show ?thesis using sp by (simp add: factorySpace_def exit_def)
qed

section \<open>Constructs and the inline registry\<close>

text \<open>
  A construct of the host: its optional name, its optional \<^verbatim>\<open>previous\<close> predicate (asked
  with \<^verbatim>\<open>self.previous\<close>), and its tokenizer, run by \<^verbatim>\<open>effects.attempt\<close> to \<open>ok\<close>
  (the machine it leaves) or to \<open>nok\<close> (\<open>None\<close>, and the host rewinds).
  An entry of \<^verbatim>\<open>parser.constructs.text\<close> is one construct or an array of constructs;
  the key \<open>None\<close> is the key \<^verbatim>\<open>null\<close>.
\<close>

record construct =
  c_name :: "string option"
  c_previous :: "(code \<Rightarrow> bool) option"
  c_tokenize :: "machine \<Rightarrow> machine option"

datatype entry = Single construct | Many "construct list"

type_synonym registry = "code \<Rightarrow> entry option"

text \<open>\<^verbatim>\<open>removeConstruct(code, name)\<close> on the copy \<^verbatim>\<open>inlineConstructs\<close>.\<close>

definition removeConstruct :: "int \<Rightarrow> string \<Rightarrow> registry \<Rightarrow> registry" where
  "removeConstruct code name inlineConstructs =
     (case inlineConstructs (Some code) of
        Some (Many list) \<Rightarrow>
          inlineConstructs(Some code \<mapsto> Many (filter (\<lambda>c. c_name c \<noteq> Some name) list))
      | Some (Single c) \<Rightarrow>
          if c_name c = Some name then inlineConstructs(Some code := None) else inlineConstructs
      | None \<Rightarrow> inlineConstructs)"

text \<open>The five calls at the head of \<^verbatim>\<open>tokenizeJsxFlow\<close>, on a copy of the text constructs.\<close>

definition inlineConstructs :: "registry \<Rightarrow> registry" where
  "inlineConstructs text_constructs =
     removeConstruct carriageReturnLineFeed ''lineEnding''
       (removeConstruct lineFeed ''lineEnding''
         (removeConstruct carriageReturn ''lineEnding''
           (removeConstruct leftCurlyBrace ''mdxTextExpression''
             (removeConstruct lessThan_code ''mdxJsxTextTag'' text_constructs))))"

datatype error =
  AssertionFailed string
| ExpressionRaised

text \<open>\<^verbatim>\<open>isBreak(code)\<close>, with \<^verbatim>\<open>self.previous\<close> as an argument. The assertion of the
  development build is a result of its own.\<close>

definition interested :: "code \<Rightarrow> construct \<Rightarrow> bool" where
  "interested previous c = (case c_previous c of None \<Rightarrow> True | Some p \<Rightarrow> p previous)"

definition isBreak :: "registry \<Rightarrow> code \<Rightarrow> code \<Rightarrow> error + bool" where
  "isBreak inl previous code =
     (if code = Some lessThan_code \<or> code = Some leftCurlyBrace \<or> code = eof
         \<or> markdownLineEnding code
      then Inr True
      else case inl code of
        None \<Rightarrow> Inr False
      | Some (Single c) \<Rightarrow> Inl (AssertionFailed ''constructs is not an array?'')
      | Some (Many list) \<Rightarrow> Inr (list_ex (interested previous) list))"

text \<open>
  \<^verbatim>\<open>effects.attempt\<close> on a map of constructs, as the host does it: the constructs under the
  current code, then those under the key \<^verbatim>\<open>null\<close>, are tried in order from the same
  position; a construct whose name is disabled fails at once; the first that reaches
  \<open>ok\<close> is kept; when none does, the host goes to the failure state.
\<close>

definition as_list :: "entry option \<Rightarrow> construct list" where
  "as_list e = (case e of None \<Rightarrow> [] | Some (Single c) \<Rightarrow> [c] | Some (Many list) \<Rightarrow> list)"

definition disabled :: "string list \<Rightarrow> construct \<Rightarrow> bool" where
  "disabled dis c = (case c_name c of None \<Rightarrow> False | Some n \<Rightarrow> n \<in> set dis)"

fun attempt_list :: "string list \<Rightarrow> construct list \<Rightarrow> machine \<Rightarrow> machine option" where
  "attempt_list dis [] m = None"
| "attempt_list dis (c # cs) m =
     (if disabled dis c then attempt_list dis cs m
      else case c_tokenize c m of Some m' \<Rightarrow> Some m' | None \<Rightarrow> attempt_list dis cs m)"

definition attempt_map :: "string list \<Rightarrow> registry \<Rightarrow> machine \<Rightarrow> machine option" where
  "attempt_map dis reg m =
     (case current m of
        None \<Rightarrow> None
      | Some c \<Rightarrow> attempt_list dis (as_list (reg (Some c)) @ as_list (reg None)) m)"

text \<open>A construct that an attempt passes over at a machine: its name is disabled, or its
  tokenizer fails there.\<close>

definition passed_over :: "string list \<Rightarrow> machine \<Rightarrow> construct \<Rightarrow> bool" where
  "passed_over dis m c = (disabled dis c \<or> c_tokenize c m = None)"

section \<open>The flow chunk scanner (\<^verbatim>\<open>tokenizeJsxFlow\<close>)\<close>

text \<open>
  What the scanner is given from outside: the tag grammar \<^verbatim>\<open>factoryTag\<close> (of
  \<^verbatim>\<open>factory-tag.js\<close>, run to \<open>ok\<close> or \<open>nok\<close>), the expression grammar
  \<^verbatim>\<open>factoryMdxExpression\<close> (which has a success continuation only: \<open>None\<close> is an
  expression it raises on), the text constructs of the parser and the names the parser
  disables.
\<close>

record env =
  factoryTag :: "machine \<Rightarrow> machine option"
  factoryMdxExpression :: "machine \<Rightarrow> machine option"
  text_constructs :: registry
  disable_null :: "string list"

text \<open>\<^verbatim>\<open>tokenizeJsxFlowTag\<close>: the assertion on the tag-opening code, then the tag grammar.\<close>

definition tokenizeJsxFlowTag :: "env \<Rightarrow> machine \<Rightarrow> error + machine option" where
  "tokenizeJsxFlowTag env m =
     (if current m = Some lessThan_code then Inr (factoryTag env m)
      else Inl (AssertionFailed ''expected `<`''))"

text \<open>The tokenizer that \<^verbatim>\<open>afterTag\<close> attempts (its state \<^verbatim>\<open>tryLine\<close>).\<close>

function tryLine :: "machine \<Rightarrow> machine option" where
  "tryLine m =
     (if markdownSpace (current m) then tryLine (factorySpace ''lineSuffix'' m)
      else if markdownLineEnding (current m)
        then Some (exit ''lineEnding'' (consume (enter ''lineEnding'' m)))
      else if current m = eof then Some m
      else None)"
  by pat_completeness auto
termination
  by (relation "measure (\<lambda>m. length (m_input m))") (auto simp: length_input_factorySpace)

declare tryLine.simps [simp del]

datatype state =
  Start | AfterTag | AfterTagLineEnding | MaybeConstruct | TryLocalConstructs
| TryInlineConstructs | NotConstruct | Data | MdxExpression | AfterLineEnding | End

datatype result = Ok machine | Nok | Raised error

datatype outcome = Continue state machine | Done result

text \<open>One call of a state function: the state it returns, or the end of the construct
  through \<open>ok\<close>, through \<open>nok\<close>, or by an exception.\<close>

fun step :: "env \<Rightarrow> state \<Rightarrow> machine \<Rightarrow> outcome" where
  "step env Start m =
     (case tokenizeJsxFlowTag env m of
        Inl e \<Rightarrow> Done (Raised e)
      | Inr (Some m') \<Rightarrow> Continue AfterTag m'
      | Inr None \<Rightarrow> Done Nok)"
| "step env AfterTag m =
     (case tryLine m of
        Some m' \<Rightarrow> Continue AfterTagLineEnding m'
      | None \<Rightarrow> Continue MaybeConstruct m)"
| "step env AfterTagLineEnding m =
     (if markdownSpace (current m) then Continue AfterTagLineEnding (factorySpace ''linePrefix'' m)
      else if markdownLineEnding (current m) \<or> current m = eof then Continue End m
      else Continue MaybeConstruct m)"
| "step env MaybeConstruct m =
     (case isBreak (inlineConstructs (text_constructs env)) (m_previous m) (current m) of
        Inl e \<Rightarrow> Done (Raised e)
      | Inr True \<Rightarrow> Continue TryLocalConstructs m
      | Inr False \<Rightarrow> Continue NotConstruct m)"
| "step env TryLocalConstructs m =
     (if current m = Some lessThan_code then
        (case tokenizeJsxFlowTag env m of
           Inl e \<Rightarrow> Done (Raised e)
         | Inr (Some m') \<Rightarrow> Continue AfterTag m'
         | Inr None \<Rightarrow> Continue TryInlineConstructs m)
      else if current m = Some leftCurlyBrace then Continue MdxExpression m
      else if markdownLineEnding (current m)
        then Continue AfterLineEnding (exit ''lineEnding'' (consume (enter ''lineEnding'' m)))
      else if current m = eof then Done Nok
      else Continue TryInlineConstructs m)"
| "step env TryInlineConstructs m =
     (case attempt_map (disable_null env) (inlineConstructs (text_constructs env)) m of
        Some m' \<Rightarrow> Continue TryLocalConstructs m'
      | None \<Rightarrow> Continue NotConstruct m)"
| "step env NotConstruct m = Continue Data (consume (enter ''data'' m))"
| "step env Data m =
     (case isBreak (inlineConstructs (text_constructs env)) (m_previous m) (current m) of
        Inl e \<Rightarrow> Done (Raised e)
      | Inr True \<Rightarrow> Continue TryLocalConstructs (exit ''data'' m)
      | Inr False \<Rightarrow> Continue Data (consume m))"
| "step env MdxExpression m =
     (case factoryMdxExpression env m of
        Some m' \<Rightarrow> Continue MaybeConstruct m'
      | None \<Rightarrow> Done (Raised ExpressionRaised))"
| "step env AfterLineEnding m =
     (if markdownSpace (current m) then Continue AfterLineEnding (factorySpace ''linePrefix'' m)
      else if markdownLineEnding (current m) \<or> current m = eof then Done Nok
      else Continue MaybeConstruct m)"
| "step env End m = Done (Ok m)"

text \<open>
  The host's loop: the state returned is called next. An inline construct may reach \<open>ok\<close>
  without consuming, so the loop is given fuel; \<open>None\<close> is a run that has not ended
  within it.
\<close>

fun run :: "nat \<Rightarrow> env \<Rightarrow> state \<Rightarrow> machine \<Rightarrow> result option" where
  "run 0 env st m = None"
| "run (Suc n) env st m =
     (case step env st m of
        Continue st' m' \<Rightarrow> run n env st' m'
      | Done r \<Rightarrow> Some r)"

definition initial :: "int list \<Rightarrow> machine" where
  "initial cs = \<lparr>m_input = cs, m_previous = None, m_events = [], m_pos = 0\<rparr>"

definition tokenizeJsxFlow :: "nat \<Rightarrow> env \<Rightarrow> int list \<Rightarrow> result option" where
  "tokenizeJsxFlow fuel env cs = run fuel env Start (initial cs)"

section \<open>The overlay on a store of objects\<close>

text \<open>
  To see what the head of \<^verbatim>\<open>tokenizeJsxFlow\<close> writes, the registry is also modelled with
  the objects it is made of. A store is a list of objects, an address is an index: a
  registry object maps codes to slots, a slot is \<^verbatim>\<open>undefined\<close> or a reference, an array
  object holds the addresses of its elements, a construct object is a construct.
  \<^verbatim>\<open>Object.assign({}, src)\<close> allocates a registry object with the slots of \<open>src\<close>;
  \<^verbatim>\<open>list.filter\<close> allocates a new array; \<^verbatim>\<open>inlineConstructs[code] = v\<close> writes one
  slot of the object at \<open>ic\<close>.
\<close>

type_synonym addr = nat

datatype slot = Undefined | Ref addr

datatype cell =
  RegistryObject "code \<Rightarrow> slot"
| ArrayObject "addr list"
| ConstructObject construct

type_synonym store = "cell list"

definition lookup :: "store \<Rightarrow> addr \<Rightarrow> cell option" where
  "lookup h a = (if a < length h then Some (h ! a) else None)"

definition alloc :: "cell \<Rightarrow> store \<Rightarrow> addr \<times> store" where
  "alloc c h = (length h, h @ [c])"

definition name_at :: "store \<Rightarrow> addr \<Rightarrow> string option" where
  "name_at h a = (case lookup h a of Some (ConstructObject c) \<Rightarrow> c_name c | _ \<Rightarrow> None)"

definition slots_of :: "store \<Rightarrow> addr \<Rightarrow> code \<Rightarrow> slot" where
  "slots_of h a = (case lookup h a of Some (RegistryObject f) \<Rightarrow> f | _ \<Rightarrow> (\<lambda>k. Undefined))"

definition set_field :: "addr \<Rightarrow> code \<Rightarrow> slot \<Rightarrow> store \<Rightarrow> store" where
  "set_field a k v h = h[a := RegistryObject ((slots_of h a)(k := v))]"

definition object_assign_empty :: "addr \<Rightarrow> store \<Rightarrow> addr \<times> store" where
  "object_assign_empty src h = alloc (RegistryObject (slots_of h src)) h"

text \<open>\<^verbatim>\<open>removeConstruct(code, name)\<close>, with \<open>ic\<close> the address of \<^verbatim>\<open>inlineConstructs\<close>.\<close>

definition h_removeConstruct :: "addr \<Rightarrow> int \<Rightarrow> string \<Rightarrow> store \<Rightarrow> store" where
  "h_removeConstruct ic code name h =
     (case slots_of h ic (Some code) of
        Undefined \<Rightarrow> h
      | Ref l \<Rightarrow>
          (case lookup h l of
             Some (ArrayObject list) \<Rightarrow>
               (let (l', h') = alloc (ArrayObject (filter (\<lambda>c. name_at h c \<noteq> Some name) list)) h
                in set_field ic (Some code) (Ref l') h')
           | Some (ConstructObject c) \<Rightarrow>
               if c_name c = Some name then set_field ic (Some code) Undefined h else h
           | _ \<Rightarrow> h))"

text \<open>The copy and the five calls; the result is the address of the copy and the store.\<close>

definition h_inlineConstructs :: "addr \<Rightarrow> store \<Rightarrow> addr \<times> store" where
  "h_inlineConstructs text h =
     (let (ic, h1) = object_assign_empty text h;
          h2 = h_removeConstruct ic lessThan_code ''mdxJsxTextTag'' h1;
          h3 = h_removeConstruct ic leftCurlyBrace ''mdxTextExpression'' h2;
          h4 = h_removeConstruct ic carriageReturn ''lineEnding'' h3;
          h5 = h_removeConstruct ic lineFeed ''lineEnding'' h4;
          h6 = h_removeConstruct ic carriageReturnLineFeed ''lineEnding'' h5
      in (ic, h6))"

text \<open>
  The registry that a registry object stands for: a slot that refers to an array stands for
  the constructs of the array, a slot that refers to a construct for that construct. A
  registry object is valid when its slots refer to objects of the store.
\<close>

definition construct_of :: "store \<Rightarrow> addr \<Rightarrow> construct option" where
  "construct_of h a = (case lookup h a of Some (ConstructObject c) \<Rightarrow> Some c | _ \<Rightarrow> None)"

definition constructs_at :: "store \<Rightarrow> addr list \<Rightarrow> construct list" where
  "constructs_at h as = List.map_filter (construct_of h) as"

definition view :: "store \<Rightarrow> addr \<Rightarrow> registry" where
  "view h a k =
     (case slots_of h a k of
        Undefined \<Rightarrow> None
      | Ref l \<Rightarrow>
          (case lookup h l of
             Some (ArrayObject list) \<Rightarrow> Some (Many (constructs_at h list))
           | Some (ConstructObject c) \<Rightarrow> Some (Single c)
           | _ \<Rightarrow> None))"

definition valid_registry :: "store \<Rightarrow> addr \<Rightarrow> bool" where
  "valid_registry h a \<longleftrightarrow>
     (\<exists>g. lookup h a = Some (RegistryObject g) \<and> (\<forall>k l. g k = Ref l \<longrightarrow> l < length h))"

section \<open>The resolver (\<^verbatim>\<open>resolveJsxFlow\<close>)\<close>

text \<open>
  A point and a token as the host has them. An event is \<^verbatim>\<open>[kind, token, context]\<close>; the
  enter and the exit event of a token hold the same token object, and the resolver writes
  to token objects, so the tokens live in a store (a list, an address is an index) and an
  event holds its token's address. The context is the same in every event and is left out.
\<close>

record point =
  p_line :: int
  p_column :: int
  p_offset :: int
  p_index :: int
  p_bufferIndex :: int

record token =
  t_type :: string
  t_start :: point
  t_end :: point

type_synonym event = "kind \<times> nat"

record rstate =
  r_events :: "event list"
  r_tokens :: "token list"

text \<open>A chunk of the stream that \<^verbatim>\<open>context.sliceStream(token)\<close> returns: a string (its
  code units) or a numeric code.\<close>

datatype chunk = Str "int list" | Num int

definition hardBreakPrefixSizeMin :: nat where
  "hardBreakPrefixSizeMin = 2"

definition type_at :: "rstate \<Rightarrow> nat \<Rightarrow> string" where
  "type_at s i = t_type (r_tokens s ! snd (r_events s ! i))"

text \<open>\<^verbatim>\<open>events[index] && events[index][1].type === types.data\<close>\<close>

definition is_data_at :: "rstate \<Rightarrow> nat \<Rightarrow> bool" where
  "is_data_at s i = (i < length (r_events s) \<and> type_at s i = ''data'')"

text \<open>\<^verbatim>\<open>events.splice(start, deleteCount)\<close> and \<^verbatim>\<open>events.splice(start, 0, a, b)\<close>.\<close>

definition splice_out :: "nat \<Rightarrow> nat \<Rightarrow> 'a list \<Rightarrow> 'a list" where
  "splice_out start deleteCount xs = take start xs @ drop (start + deleteCount) xs"

definition splice_in :: "nat \<Rightarrow> 'a list \<Rightarrow> 'a list \<Rightarrow> 'a list" where
  "splice_in start new xs = take start xs @ new @ drop start xs"

text \<open>
  The merge loop. \<open>index\<close> is the value after \<^verbatim>\<open>++index\<close> in the loop's test, \<open>entered\<close> is
  the variable \<^verbatim>\<open>enter\<close>, \<open>None\<close> for \<^verbatim>\<open>undefined\<close>. A merge writes the end of the last data token of the run to
  the token at \<open>enter\<close>, removes the events from \<open>enter + 2\<close> up to \<open>index\<close>, and sets
  \<open>index\<close> to \<open>enter + 2\<close>, which the test increments.
\<close>

definition merge_at :: "nat \<Rightarrow> nat \<Rightarrow> rstate \<Rightarrow> rstate" where
  "merge_at entered index s =
     (let a = snd (r_events s ! entered);
          l = snd (r_events s ! (index - 1))
      in \<lparr>r_events = splice_out (entered + 2) (index - entered - 2) (r_events s),
          r_tokens = (r_tokens s)[a := (r_tokens s ! a)\<lparr>t_end := t_end (r_tokens s ! l)\<rparr>]\<rparr>)"

function merge_loop :: "nat \<Rightarrow> nat option \<Rightarrow> rstate \<Rightarrow> rstate" where
  "merge_loop index entered s =
     (if index \<le> length (r_events s) then
        (case entered of
           None \<Rightarrow>
             if is_data_at s index then merge_loop (index + 2) (Some index) s
             else merge_loop (index + 1) None s
         | Some e \<Rightarrow>
             if \<not> is_data_at s index then
               (if index \<noteq> e + 2 then merge_loop (e + 3) None (merge_at e index s)
                else merge_loop (index + 1) None s)
             else merge_loop (index + 1) (Some e) s)
      else s)"
  by pat_completeness auto
termination
  by (relation "measure (\<lambda>(index, entered, s). length (r_events s) + 1 - index)")
     (auto simp: merge_at_def splice_out_def Let_def)

declare merge_loop.simps [simp del]

text \<open>
  The backward scan over the chunks of a data token. \<^verbatim>\<open>strip_spaces\<close> is the inner loop
  over a string chunk, from \<open>bufferIndex\<close> down. \<^verbatim>\<open>scan_chunks\<close> is \<^verbatim>\<open>while (index--)\<close>:
  its first argument after the chunks is \<open>index\<close> before the test; the result is
  \<open>index\<close>, \<open>bufferIndex\<close>, \<open>size\<close> and \<open>tabs\<close> after the loop (\<open>index\<close> is \<open>-1\<close> when
  the test ended it).
\<close>

fun strip_spaces :: "int list \<Rightarrow> nat \<Rightarrow> nat \<Rightarrow> nat \<times> nat" where
  "strip_spaces chunk 0 sz = (0, sz)"
| "strip_spaces chunk (Suc b) sz =
     (if chunk ! b = space then strip_spaces chunk b (Suc sz) else (Suc b, sz))"

fun scan_chunks :: "chunk list \<Rightarrow> nat \<Rightarrow> int \<Rightarrow> nat \<Rightarrow> bool \<Rightarrow> int \<times> int \<times> nat \<times> bool" where
  "scan_chunks chunks 0 bufferIndex sz tabs = (-1, bufferIndex, sz, tabs)"
| "scan_chunks chunks (Suc index) bufferIndex sz tabs =
     (case chunks ! index of
        Str chunk \<Rightarrow>
          (let (bufferIndex', sz') = strip_spaces chunk (length chunk) sz in
           if bufferIndex' \<noteq> 0 then (int index, int bufferIndex', sz', tabs)
           else scan_chunks chunks index (-1) sz' tabs)
      | Num c \<Rightarrow>
          if c = horizontalTab then scan_chunks chunks index bufferIndex (Suc sz) True
          else if c = virtualSpace then scan_chunks chunks index bufferIndex sz tabs
          else (int index + 1, bufferIndex, sz, tabs))"

text \<open>The token split off a data token, and what is left of the data token.\<close>

definition suffix_token :: "token \<Rightarrow> bool \<Rightarrow> int \<times> int \<times> nat \<times> bool \<Rightarrow> token" where
  "suffix_token data at_end r =
     (case r of (index, bufferIndex, sz, tabs) \<Rightarrow>
        \<lparr>t_type = (if at_end \<or> tabs \<or> sz < hardBreakPrefixSizeMin
                    then ''lineSuffix'' else ''hardBreakTrailing''),
         t_start = \<lparr>p_line = p_line (t_end data),
                     p_column = p_column (t_end data) - int sz,
                     p_offset = p_offset (t_end data) - int sz,
                     p_index = p_index (t_start data) + index,
                     p_bufferIndex = (if index \<noteq> 0 then bufferIndex
                                      else p_bufferIndex (t_start data) + bufferIndex)\<rparr>,
         t_end = t_end data\<rparr>)"

text \<open>
  The second loop. \<open>eventIndex\<close> is the value after \<^verbatim>\<open>++eventIndex\<close> in the loop's test
  (so it is 1 at first); \<open>slice\<close> is \<^verbatim>\<open>context.sliceStream\<close>. A new token is allocated at
  the end of the store; \<^verbatim>\<open>Object.assign(data, token)\<close> overwrites the type, the start and
  the end of the data token.
\<close>

function whitespace_loop :: "(token \<Rightarrow> chunk list) \<Rightarrow> nat \<Rightarrow> rstate \<Rightarrow> rstate" where
  "whitespace_loop slice eventIndex s =
     (if eventIndex \<le> length (r_events s) then
        (if (eventIndex = length (r_events s) \<or> type_at s eventIndex = ''lineEnding'')
            \<and> type_at s (eventIndex - 1) = ''data''
         then
           (let a = snd (r_events s ! (eventIndex - 1));
                data = r_tokens s ! a;
                chunks = slice data;
                r = scan_chunks chunks (length chunks) (-1) 0 False;
                sz = fst (snd (snd r))
            in if sz \<noteq> 0 then
                 (let token = suffix_token data (eventIndex = length (r_events s)) r;
                      data' = data\<lparr>t_end := t_start token\<rparr>
                  in if p_offset (t_start data') = p_offset (t_end data') then
                       whitespace_loop slice (eventIndex + 2)
                         (s\<lparr>r_tokens := (r_tokens s)[a := token]\<rparr>)
                     else
                       whitespace_loop slice (eventIndex + 4)
                         \<lparr>r_events = splice_in eventIndex
                              [(Enter, length (r_tokens s)), (Exit, length (r_tokens s))]
                              (r_events s),
                          r_tokens = (r_tokens s)[a := data'] @ [token]\<rparr>)
               else whitespace_loop slice (eventIndex + 2) s)
         else whitespace_loop slice (eventIndex + 1) s)
      else s)"
  by pat_completeness auto
termination
  by (relation "measure (\<lambda>(slice, eventIndex, s). length (r_events s) + 1 - eventIndex)")
     (auto simp: splice_in_def Let_def)

declare whitespace_loop.simps [simp del]

definition resolveJsxFlow :: "(token \<Rightarrow> chunk list) \<Rightarrow> rstate \<Rightarrow> rstate" where
  "resolveJsxFlow slice s = whitespace_loop slice 1 (merge_loop 0 None s)"

section \<open>The resolver, in the words of the specification\<close>

text \<open>
  The event lists the resolver is run on are the tokenizer's: a data token and a line ending
  are leaves, so the enter and the exit event of such a token are adjacent and hold the
  same token object, and no token object is entered twice. Such a list is the flattening
  of a list of items: a data token, a line ending, or any single event of a token of
  another type.
\<close>

datatype item = DataTok nat | LineEnd nat | Other event

fun flat :: "item list \<Rightarrow> event list" where
  "flat [] = []"
| "flat (DataTok a # xs) = (Enter, a) # (Exit, a) # flat xs"
| "flat (LineEnd a # xs) = (Enter, a) # (Exit, a) # flat xs"
| "flat (Other e # xs) = e # flat xs"

fun is_DataTok :: "item \<Rightarrow> bool" where
  "is_DataTok (DataTok a) = True"
| "is_DataTok x = False"

fun is_LineEnd :: "item \<Rightarrow> bool" where
  "is_LineEnd (LineEnd a) = True"
| "is_LineEnd x = False"

fun item_addr :: "item \<Rightarrow> nat" where
  "item_addr (DataTok a) = a"
| "item_addr (LineEnd a) = a"
| "item_addr (Other e) = snd e"

text \<open>An item agrees with the store: its token is there and has the type of the item.\<close>

fun item_ok :: "token list \<Rightarrow> item \<Rightarrow> bool" where
  "item_ok h (DataTok a) = (a < length h \<and> t_type (h ! a) = ''data'')"
| "item_ok h (LineEnd a) = (a < length h \<and> t_type (h ! a) = ''lineEnding'')"
| "item_ok h (Other e) =
     (snd e < length h \<and> t_type (h ! snd e) \<noteq> ''data'' \<and> t_type (h ! snd e) \<noteq> ''lineEnding'')"

definition data_addrs :: "item list \<Rightarrow> nat list" where
  "data_addrs items = map item_addr (filter is_DataTok items)"

definition well_formed :: "item list \<Rightarrow> token list \<Rightarrow> bool" where
  "well_formed items h \<longleftrightarrow> list_all (item_ok h) items \<and> distinct (data_addrs items)"

text \<open>The condition the proofs by induction carry: a data token's object is not an object of
  a later item.\<close>

fun wf_rest :: "token list \<Rightarrow> item list \<Rightarrow> bool" where
  "wf_rest h [] = True"
| "wf_rest h (x # r) =
     (item_ok h x \<and> (is_DataTok x \<longrightarrow> item_addr x \<notin> item_addr ` set r) \<and> wf_rest h r)"

abbreviation St :: "event list \<Rightarrow> token list \<Rightarrow> rstate" where
  "St ev h \<equiv> \<lparr>r_events = ev, r_tokens = h\<rparr>"

text \<open>
  The merge pass of the specification: a data token and the maximal run of data tokens
  after it become one data token, from the start of the first to the end of the last.
\<close>

definition merged :: "nat \<Rightarrow> nat list \<Rightarrow> token list \<Rightarrow> token list" where
  "merged a rn h = (if rn = [] then h else h[a := (h ! a)\<lparr>t_end := t_end (h ! last rn)\<rparr>])"

lemma length_dropWhile_less_Suc [termination_simp]:
  "length (dropWhile P xs) < Suc (length xs)"
  by (simp add: le_imp_less_Suc length_dropWhile_le)

fun merge_items :: "item list \<Rightarrow> token list \<Rightarrow> item list \<times> token list" where
  "merge_items [] h = ([], h)"
| "merge_items (DataTok a # rest) h =
     (let rn = takeWhile is_DataTok rest;
          h1 = (if rn = [] then h
                else h[a := (h ! a)\<lparr>t_end := t_end (h ! item_addr (last rn))\<rparr>])
      in case merge_items (dropWhile is_DataTok rest) h1 of (out, h') \<Rightarrow> (DataTok a # out, h'))"
| "merge_items (LineEnd b # rest) h =
     (case merge_items rest h of (out, h') \<Rightarrow> (LineEnd b # out, h'))"
| "merge_items (Other e # rest) h =
     (case merge_items rest h of (out, h') \<Rightarrow> (Other e # out, h'))"

fun no_adjacent :: "item list \<Rightarrow> bool" where
  "no_adjacent [] = True"
| "no_adjacent [x] = True"
| "no_adjacent (x # y # r) = (\<not> (is_DataTok x \<and> is_DataTok y) \<and> no_adjacent (y # r))"

text \<open>
  The whitespace pass of the specification. \<open>trailing\<close> is the backward scan of a data
  token; \<open>classify\<close> says what becomes of the token: nothing when no trailing space or tab
  is counted, otherwise the whole token is reclassified in place when the run covers it,
  or the run is split off as a new token. Only a data token followed by a line ending or by
  the end of the events is looked at.
\<close>

definition trailing :: "(token \<Rightarrow> chunk list) \<Rightarrow> token \<Rightarrow> int \<times> int \<times> nat \<times> bool" where
  "trailing slice data = (let chunks = slice data in scan_chunks chunks (length chunks) (-1) 0 False)"

datatype action = Keep | Reclassify token | Split token token

definition classify :: "(token \<Rightarrow> chunk list) \<Rightarrow> bool \<Rightarrow> token \<Rightarrow> action" where
  "classify slice at_end data =
     (let r = trailing slice data in
      if fst (snd (snd r)) = 0 then Keep
      else let token = suffix_token data at_end r;
               data' = data\<lparr>t_end := t_start token\<rparr>
           in if p_offset (t_start data') = p_offset (t_end data') then Reclassify token
              else Split data' token)"

fun ws_items :: "(token \<Rightarrow> chunk list) \<Rightarrow> item list \<Rightarrow> token list \<Rightarrow> item list \<times> token list" where
  "ws_items slice [] h = ([], h)"
| "ws_items slice (DataTok a # rest) h =
     (if rest = [] \<or> is_LineEnd (hd rest) then
        (case classify slice (rest = []) (h ! a) of
           Keep \<Rightarrow>
             (case ws_items slice rest h of (out, h') \<Rightarrow> (DataTok a # out, h'))
         | Reclassify token \<Rightarrow>
             (case ws_items slice rest (h[a := token]) of
                (out, h') \<Rightarrow> (Other (Enter, a) # Other (Exit, a) # out, h'))
         | Split data' token \<Rightarrow>
             (case ws_items slice rest (h[a := data'] @ [token]) of
                (out, h') \<Rightarrow>
                  (DataTok a # Other (Enter, length h) # Other (Exit, length h) # out, h')))
      else (case ws_items slice rest h of (out, h') \<Rightarrow> (DataTok a # out, h')))"
| "ws_items slice (x # rest) h = (case ws_items slice rest h of (out, h') \<Rightarrow> (x # out, h'))"

fun settled :: "(token \<Rightarrow> chunk list) \<Rightarrow> token list \<Rightarrow> item list \<Rightarrow> bool" where
  "settled slice h [] = True"
| "settled slice h (DataTok a # rest) =
     ((rest = [] \<or> is_LineEnd (hd rest) \<longrightarrow> classify slice (rest = []) (h ! a) = Keep)
      \<and> settled slice h rest)"
| "settled slice h (x # rest) = settled slice h rest"

definition resolve_items ::
  "(token \<Rightarrow> chunk list) \<Rightarrow> item list \<Rightarrow> token list \<Rightarrow> item list \<times> token list" where
  "resolve_items slice items h =
     (case merge_items items h of (out, h1) \<Rightarrow> ws_items slice out h1)"

text \<open>
  The trailing run of the specification, on the codes of the chunks: a code unit of a string
  chunk or a numeric code. The run is the longest suffix of spaces, tabs and virtual
  spaces; its size counts the spaces and the tabs, a virtual space counts nothing, and any
  other code ends it.
\<close>

datatype atom = Unit int | Sentinel int

fun atoms_of :: "chunk \<Rightarrow> atom list" where
  "atoms_of (Str cs) = map Unit cs"
| "atoms_of (Num c) = [Sentinel c]"

definition atoms :: "chunk list \<Rightarrow> atom list" where
  "atoms chunks = concat (map atoms_of chunks)"

fun blank :: "atom \<Rightarrow> bool" where
  "blank (Unit c) = (c = space)"
| "blank (Sentinel c) = (c = horizontalTab \<or> c = virtualSpace)"

definition trailing_blank :: "chunk list \<Rightarrow> atom list" where
  "trailing_blank chunks = takeWhile blank (rev (atoms chunks))"

definition spec_size :: "chunk list \<Rightarrow> nat" where
  "spec_size chunks = length (filter (\<lambda>x. x \<noteq> Sentinel virtualSpace) (trailing_blank chunks))"

definition spec_tabs :: "chunk list \<Rightarrow> bool" where
  "spec_tabs chunks = (Sentinel horizontalTab \<in> set (trailing_blank chunks))"

text \<open>For the examples: points on one line of an input that is one string chunk, and the
  slice of such an input that a token covers.\<close>

definition pt :: "int \<Rightarrow> point" where
  "pt n = \<lparr>p_line = 1, p_column = n + 1, p_offset = n, p_index = 0, p_bufferIndex = n\<rparr>"

definition tk :: "string \<Rightarrow> int \<Rightarrow> int \<Rightarrow> token" where
  "tk ty a b = \<lparr>t_type = ty, t_start = pt a, t_end = pt b\<rparr>"

definition slice_of :: "int list \<Rightarrow> token \<Rightarrow> chunk list" where
  "slice_of cs t =
     [Str (take (nat (p_offset (t_end t) - p_offset (t_start t)))
             (drop (nat (p_offset (t_start t))) cs))]"

section \<open>The clean close, in the words of the specification\<close>

definition is_space :: "int \<Rightarrow> bool" where
  "is_space c = markdownSpace (Some c)"

text \<open>The machine after the leading space codes have been consumed inside one token of type
  \<open>ty\<close> (no token when there is none).\<close>

definition consumed_spaces :: "string \<Rightarrow> machine \<Rightarrow> machine" where
  "consumed_spaces ty m =
     (let sp = takeWhile is_space (m_input m) in
      if sp = [] then m
      else m\<lparr>m_input := dropWhile is_space (m_input m), m_previous := Some (last sp),
             m_events := m_events m @ [(Enter, ty, m_pos m), (Exit, ty, m_pos m + length sp)],
             m_pos := m_pos m + length sp\<rparr>)"

text \<open>The clean close of the specification: trailing space as a line suffix, then one line
  ending, consumed, or the end of input; anything else is no clean close.\<close>

definition clean_close :: "machine \<Rightarrow> machine option" where
  "clean_close m =
     (let m1 = consumed_spaces ''lineSuffix'' m in
      case m_input m1 of
        [] \<Rightarrow> Some m1
      | c # r \<Rightarrow>
          if markdownLineEnding (Some c)
          then Some (m1\<lparr>m_input := r, m_previous := Some c,
                 m_events := m_events m1 @
                   [(Enter, ''lineEnding'', m_pos m1), (Exit, ''lineEnding'', Suc (m_pos m1))],
                 m_pos := Suc (m_pos m1)\<rparr>)
          else None)"


text \<open>The codes at which \<^verbatim>\<open>isBreak\<close> answers before it looks at the registry.\<close>

definition local_trigger :: "code \<Rightarrow> bool" where
  "local_trigger code =
     (code = Some lessThan_code \<or> code = Some leftCurlyBrace \<or> code = eof
      \<or> markdownLineEnding code)"

section \<open>Concrete grammars and registries for the examples\<close>

text \<open>
  Modelled from the spec: the Tag Grammar of \<^verbatim>\<open>factory-tag.js\<close> is not among the sources.
  For the examples, a tag is the tag-opening code, then any codes up to the first
  \<^verbatim>\<open>>\<close> on the same line; it fails when the line or the input ends first. It emits one
  \<^verbatim>\<open>mdxJsxFlowTag\<close> token.
\<close>

fun scan_to_gt :: "int list \<Rightarrow> nat option" where
  "scan_to_gt [] = None"
| "scan_to_gt (c # cs) =
     (if c = 62 then Some 1
      else if markdownLineEnding (Some c) then None
      else map_option Suc (scan_to_gt cs))"

definition simple_tag :: "machine \<Rightarrow> machine option" where
  "simple_tag m = (case m_input m of
     [] \<Rightarrow> None
   | c # cs \<Rightarrow>
       if c = lessThan_code then
         (case scan_to_gt cs of
            None \<Rightarrow> None
          | Some n \<Rightarrow> Some (exit ''mdxJsxFlowTag'' ((consume ^^ Suc n) (enter ''mdxJsxFlowTag'' m))))
       else None)"

text \<open>An environment with no inline constructs, and one with a construct for \<^verbatim>\<open>*\<close>
  (code 42) that has no \<^verbatim>\<open>previous\<close> predicate and whose tokenizer fails.\<close>

definition env0 :: env where
  "env0 = \<lparr>factoryTag = simple_tag, factoryMdxExpression = (\<lambda>m. None),
           text_constructs = (\<lambda>k. None), disable_null = []\<rparr>"

definition star_construct :: construct where
  "star_construct = \<lparr>c_name = Some ''attention'', c_previous = None, c_tokenize = (\<lambda>m. None)\<rparr>"

definition env_star :: env where
  "env_star = env0\<lparr>text_constructs :=
     (\<lambda>k. if k = Some 42 then Some (Many [star_construct]) else None)\<rparr>"

text \<open>An environment with a construct for \<^verbatim>\<open>*\<close> that has no \<^verbatim>\<open>previous\<close>
  predicate and whose tokenizer succeeds: it consumes the code in one
  \<^verbatim>\<open>attentionSequence\<close> token.\<close>

definition emphasis_construct :: construct where
  "emphasis_construct = \<lparr>c_name = Some ''attention'', c_previous = None,
     c_tokenize = (\<lambda>m. Some (exit ''attentionSequence'' (consume (enter ''attentionSequence'' m))))\<rparr>"

definition env_emphasis :: env where
  "env_emphasis = env0\<lparr>text_constructs :=
     (\<lambda>k. if k = Some 42 then Some (Many [emphasis_construct]) else None)\<rparr>"

text \<open>A registry whose entry for the tag-opening code is one construct, not an array, and
  one with such an entry for \<^verbatim>\<open>*\<close>.\<close>

definition autolink :: construct where
  "autolink = \<lparr>c_name = Some ''autolink'', c_previous = None, c_tokenize = (\<lambda>m. None)\<rparr>"

definition reg_single_lt :: registry where
  "reg_single_lt = (\<lambda>k. if k = Some lessThan_code then Some (Single autolink) else None)"

definition reg_single_star :: registry where
  "reg_single_star = (\<lambda>k. if k = Some 42 then Some (Single star_construct) else None)"

text \<open>A store for the examples: the text registry at address 0 with an array of two
  constructs under the tag-opening code.\<close>

definition store0 :: store where
  "store0 =
     [RegistryObject (\<lambda>k. if k = Some lessThan_code then Ref 1 else Undefined),
      ArrayObject [2, 3],
      ConstructObject \<lparr>c_name = Some ''mdxJsxTextTag'', c_previous = None, c_tokenize = (\<lambda>m. None)\<rparr>,
      ConstructObject autolink]"

section \<open>Theorems\<close>

text \<open>
  Claim C9. Constructing the extension raises a configuration error exactly when the wiring
  is incompatible (parser options or addResult without a parser; a parser missing
  \<^verbatim>\<open>parse\<close> or \<^verbatim>\<open>parseExpressionAt\<close>). For every other options value, no options at
  all included, construction succeeds, and the extension maps the tag-opening code to a
  construct in the flow context and in the text context.
\<close>

theorem C9_mdxJsx_configuration:
  "((\<exists>e. mdxJsx opts = Inl e) \<longleftrightarrow> incompatible_wiring opts)
   \<and> (\<not> incompatible_wiring opts \<longrightarrow>
        (\<exists>ext ac co. mdxJsx opts = Inr ext
           \<and> ext_flow ext lessThan_code = Some (JsxFlow ac co)
           \<and> ext_text ext lessThan_code = Some (JsxText ac co)
           \<and> dom (ext_flow ext) = {lessThan_code} \<and> dom (ext_text ext) = {lessThan_code}))"
  by (cases opts; cases "opt_acorn (settings_of opts)")
     (auto simp: mdxJsx_def incompatible_wiring_def settings_of_def build_extension_def
        truthy_bool_def Let_def)

theorem C9_mdxJsx_configuration_witness:
  "\<not> incompatible_wiring None
   \<and> (\<exists>ext ac co. mdxJsx None = Inr ext
           \<and> ext_flow ext lessThan_code = Some (JsxFlow ac co)
           \<and> ext_text ext lessThan_code = Some (JsxText ac co))"
  using C9_mdxJsx_configuration [of None]
  by (auto simp: incompatible_wiring_def settings_of_def)


subsection \<open>The scanner: closed forms of the helpers\<close>

lemma dropWhile_no_take: "takeWhile P xs = [] \<Longrightarrow> dropWhile P xs = xs"
  by (cases xs) (auto split: if_splits)

lemma prefix_eq:
  "prefix m = (let sp = takeWhile is_space (m_input m) in
      if sp = [] then m
      else m\<lparr>m_input := dropWhile is_space (m_input m), m_previous := Some (last sp),
             m_pos := m_pos m + length sp\<rparr>)"
proof (induction m rule: prefix.induct)
  case (1 m)
  show ?case
  proof (cases "m_input m")
    case Nil
    then show ?thesis by (subst prefix.simps) (simp add: current_def)
  next
    case (Cons c cs)
    show ?thesis
    proof (cases "is_space c")
      case False
      with Cons show ?thesis by (subst prefix.simps) (simp add: current_def is_space_def)
    next
      case True
      with Cons have sp: "markdownSpace (current m)" by (simp add: current_def is_space_def)
      have ci: "m_input (consume m) = cs" using Cons by (simp add: consume_def)
      show ?thesis
        using 1 [OF sp] sp Cons True
        by (subst prefix.simps) (auto simp: Let_def consume_def dropWhile_no_take)
    qed
  qed
qed

lemma factorySpace_eq: "factorySpace ty m = consumed_spaces ty m"
  by (cases "m_input m")
     (auto simp: factorySpace_def consumed_spaces_def prefix_eq current_def enter_def exit_def
        is_space_def Let_def)

lemma consumed_spaces_not_space: "\<not> markdownSpace (current (consumed_spaces ty m))"
proof (cases "takeWhile is_space (m_input m) = []")
  case True
  then show ?thesis
    by (cases "m_input m") (auto simp: consumed_spaces_def current_def is_space_def split: if_splits)
next
  case False
  show ?thesis
  proof (cases "dropWhile is_space (m_input m)")
    case Nil
    with False show ?thesis
      by (simp add: consumed_spaces_def current_def Let_def del: dropWhile_eq_Nil_conv)
  next
    case (Cons c r)
    then have "\<not> is_space c"
      using hd_dropWhile [of is_space "m_input m"] by (simp del: dropWhile_eq_Nil_conv)
    with False Cons show ?thesis
      by (simp add: consumed_spaces_def current_def Let_def is_space_def)
  qed
qed

lemma consumed_spaces_id: "\<not> markdownSpace (current m) \<Longrightarrow> consumed_spaces ty m = m"
  by (cases "m_input m") (auto simp: consumed_spaces_def current_def is_space_def)

lemma tryLine_no_space:
  assumes "\<not> markdownSpace (current m)"
  shows "tryLine m = (case m_input m of
        [] \<Rightarrow> Some m
      | c # r \<Rightarrow>
          if markdownLineEnding (Some c)
          then Some (m\<lparr>m_input := r, m_previous := Some c,
                 m_events := m_events m @
                   [(Enter, ''lineEnding'', m_pos m), (Exit, ''lineEnding'', Suc (m_pos m))],
                 m_pos := Suc (m_pos m)\<rparr>)
          else None)"
  using assms
  by (subst tryLine.simps)
     (auto simp: current_def eof_def enter_def exit_def consume_def split: list.splits)

lemma tryLine_eq: "tryLine m = clean_close m"
proof (cases "markdownSpace (current m)")
  case True
  then have "tryLine m = tryLine (consumed_spaces ''lineSuffix'' m)"
    by (subst tryLine.simps) (simp add: factorySpace_eq)
  also have "\<dots> = clean_close m"
    by (simp add: tryLine_no_space [OF consumed_spaces_not_space] clean_close_def Let_def)
  finally show ?thesis .
next
  case False
  then show ?thesis
    by (simp add: tryLine_no_space clean_close_def consumed_spaces_id Let_def)
qed



lemmas eval_defs = env0_def env_star_def star_construct_def env_emphasis_def
  emphasis_construct_def passed_over_def simple_tag_def initial_def current_def
  enter_def exit_def consume_def tryLine_eq clean_close_def consumed_spaces_def factorySpace_eq
  is_space_def codes_defs isBreak_def inlineConstructs_def removeConstruct_def attempt_map_def
  as_list_def Let_def tokenizeJsxFlow_def tokenizeJsxFlowTag_def interested_def disabled_def
  eval_nat_numeral

subsection \<open>The scanner: blank lines and the ways to an end\<close>



lemma only_End_is_Ok: "step env st m = Done (Ok m') \<Longrightarrow> st = End"
  by (cases st) (auto split: sum.splits option.splits bool.splits if_splits)

lemma End_only_from_AfterTagLineEnding: "step env st m = Continue End m' \<Longrightarrow> st = AfterTagLineEnding"
  by (cases st) (auto split: sum.splits option.splits bool.splits if_splits)

lemma AfterTagLineEnding_only_from:
  "step env st m = Continue AfterTagLineEnding m' \<Longrightarrow> st = AfterTag \<or> st = AfterTagLineEnding"
  by (cases st) (auto split: sum.splits option.splits bool.splits if_splits)

lemma AfterLineEnding_only_from:
  "step env st m = Continue AfterLineEnding m' \<Longrightarrow> st = TryLocalConstructs \<or> st = AfterLineEnding"
  by (cases st) (auto split: sum.splits option.splits bool.splits if_splits)


lemma isBreak_local: "local_trigger code \<Longrightarrow> isBreak inl previous code = Inr True"
  by (auto simp: isBreak_def local_trigger_def)

lemma isBreak_eof: "current m = eof \<Longrightarrow> isBreak inl previous (current m) = Inr True"
  by (simp add: isBreak_def)




subsection \<open>The scanner: the claims\<close>






text \<open>
  Claim C3, as the code has it. In the steady state the end of input does not finish the
  block: \<^verbatim>\<open>tryLocalConstructs\<close> answers \<open>nok\<close> there, and so do \<^verbatim>\<open>maybeConstruct\<close> and
  \<^verbatim>\<open>data\<close>, which go to it, and \<^verbatim>\<open>afterLineEnding\<close>. The end of input finishes the
  block with success at \<^verbatim>\<open>afterTagLineEnding\<close>, after a clean close; success is reached
  through \<^verbatim>\<open>end\<close> only, and \<^verbatim>\<open>end\<close> from \<^verbatim>\<open>afterTagLineEnding\<close> only.
\<close>

theorem C3_eof_in_steady_state:
  "current m = eof \<Longrightarrow>
     run (Suc n) env TryLocalConstructs m = Some Nok
   \<and> run (Suc (Suc n)) env MaybeConstruct m = Some Nok
   \<and> run (Suc (Suc n)) env Data m = Some Nok
   \<and> run (Suc n) env AfterLineEnding m = Some Nok
   \<and> run (Suc (Suc n)) env AfterTagLineEnding m = Some (Ok m)
   \<and> (\<forall>st m0 m'. step env st m0 = Done (Ok m') \<longrightarrow> st = End)
   \<and> (\<forall>st m0 m'. step env st m0 = Continue End m' \<longrightarrow> st = AfterTagLineEnding)"
proof (intro conjI allI impI)
  assume e: "current m = eof"
  then have e': "current (exit ''data'' m) = eof" by (simp add: current_def exit_def)
  show "run (Suc n) env TryLocalConstructs m = Some Nok"
    using e by (simp add: eof_def)
  show "run (Suc (Suc n)) env MaybeConstruct m = Some Nok"
    using e isBreak_eof [OF e] by (simp add: eof_def)
  show "run (Suc (Suc n)) env Data m = Some Nok"
    using e' isBreak_eof [OF e] by (simp add: eof_def)
  show "run (Suc n) env AfterLineEnding m = Some Nok"
    using e by (simp add: eof_def)
  show "run (Suc (Suc n)) env AfterTagLineEnding m = Some (Ok m)"
    using e by (simp add: eof_def)
next
  fix st m0 m' assume "step env st m0 = Done (Ok m')"
  then show "st = End" by (rule only_End_is_Ok)
next
  fix st m0 m' assume "step env st m0 = Continue End m'"
  then show "st = AfterTagLineEnding" by (rule End_only_from_AfterTagLineEnding)
qed

theorem C3_eof_in_steady_state_witness:
  "current \<lparr>m_input = [], m_previous = Some 120, m_events = [], m_pos = 4\<rparr> = eof
   \<and> run 2 env0 Data \<lparr>m_input = [], m_previous = Some 120, m_events = [], m_pos = 4\<rparr> = Some Nok"
proof -
  have e: "current \<lparr>m_input = [], m_previous = Some 120, m_events = [], m_pos = 4\<rparr> = eof"
    by (simp add: current_def eof_def)
  from C3_eof_in_steady_state [OF e, of 0 env0]
  have r: "run (Suc (Suc 0)) env0 Data \<lparr>m_input = [], m_previous = Some 120, m_events = [], m_pos = 4\<rparr>
      = Some Nok"
    by blast
  show ?thesis unfolding numeral_2_eq_2 using e r by blast
qed

text \<open>
  The claim as the specification states it fails on \<^verbatim>\<open><a>x\<close>: the tag is recognised,
  the clean close fails at \<^verbatim>\<open>x\<close>, \<^verbatim>\<open>x\<close> becomes data in the steady state, and at the end
  of input the sixth state called, \<^verbatim>\<open>tryLocalConstructs\<close>, answers \<open>nok\<close>.
\<close>

theorem C3_eof_counterexample:
  "tokenizeJsxFlow 5 env0 [60, 97, 62, 120] = None
   \<and> tokenizeJsxFlow 6 env0 [60, 97, 62, 120] = Some Nok"
  by (simp add: eval_defs)




text \<open>
  Claim C10, as the code has it. At a code that is none of the scanner's own triggers (the
  tag-opening code, the expression-opening code, the end of input, a line ending), an
  entry that is one construct and not an array makes the assertion of \<^verbatim>\<open>isBreak\<close> fail;
  \<^verbatim>\<open>removeConstruct\<close> leaves such an entry in place when the name differs; and when no
  code outside the scanner's own triggers has such an entry, \<^verbatim>\<open>isBreak\<close> returns a
  boolean for every code. At the scanner's own triggers it returns true before it reads the
  registry, whatever the entry's shape.
\<close>

theorem C10_isBreak_assertion:
  "(\<not> local_trigger code \<and> inl code = Some (Single c) \<longrightarrow>
      isBreak inl previous code = Inl (AssertionFailed ''constructs is not an array?''))
   \<and> (reg (Some k) = Some (Single c) \<and> c_name c \<noteq> Some name \<longrightarrow>
      removeConstruct k name reg (Some k) = Some (Single c))
   \<and> ((\<forall>k' c'. inl k' = Some (Single c') \<longrightarrow> local_trigger k') \<longrightarrow>
      (\<exists>b. isBreak inl previous code = Inr b))
   \<and> (local_trigger code \<longrightarrow> isBreak inl previous code = Inr True)"
proof (intro conjI impI)
  assume "\<not> local_trigger code \<and> inl code = Some (Single c)"
  then show "isBreak inl previous code = Inl (AssertionFailed ''constructs is not an array?'')"
    by (simp add: isBreak_def local_trigger_def)
next
  assume "reg (Some k) = Some (Single c) \<and> c_name c \<noteq> Some name"
  then show "removeConstruct k name reg (Some k) = Some (Single c)"
    by (simp add: removeConstruct_def)
next
  assume a: "\<forall>k' c'. inl k' = Some (Single c') \<longrightarrow> local_trigger k'"
  show "\<exists>b. isBreak inl previous code = Inr b"
  proof (cases "local_trigger code")
    case True
    then show ?thesis using isBreak_local by blast
  next
    case False
    with a have "\<forall>c'. inl code \<noteq> Some (Single c')" by blast
    with False show ?thesis
      by (auto simp: isBreak_def local_trigger_def split: option.splits entry.splits)
  qed
next
  assume "local_trigger code"
  then show "isBreak inl previous code = Inr True"
    by (rule isBreak_local)
qed

theorem C10_isBreak_assertion_witness:
  "\<not> local_trigger (Some 42)
   \<and> inlineConstructs reg_single_star (Some 42) = Some (Single star_construct)
   \<and> isBreak (inlineConstructs reg_single_star) None (Some 42) =
       Inl (AssertionFailed ''constructs is not an array?'')"
proof -
  have nl: "\<not> local_trigger (Some 42)" by (simp add: local_trigger_def codes_defs)
  have reg: "inlineConstructs reg_single_star (Some 42) = Some (Single star_construct)"
    by (simp add: reg_single_star_def eval_defs)
  from C10_isBreak_assertion [of "Some 42" "inlineConstructs reg_single_star" star_construct None]
    nl reg show ?thesis by blast
qed

text \<open>
  The claim as stated fails at the tag-opening code: with one construct (not an array) as
  its entry, which \<^verbatim>\<open>removeConstruct\<close> leaves in place, \<^verbatim>\<open>isBreak\<close> returns true
  before it looks at the registry, and it returns a boolean for every code.
\<close>

theorem C10_single_entry_counterexample:
  "inlineConstructs reg_single_lt (Some lessThan_code) = Some (Single autolink)
   \<and> isBreak (inlineConstructs reg_single_lt) None (Some lessThan_code) = Inr True
   \<and> (\<forall>previous code. \<exists>b. isBreak (inlineConstructs reg_single_lt) previous code = Inr b)"
proof -
  have reg: "inlineConstructs reg_single_lt =
      (\<lambda>k. if k = Some lessThan_code then Some (Single autolink) else None)"
    by (rule ext) (simp add: reg_single_lt_def autolink_def eval_defs)
  show ?thesis
    by (auto simp: reg isBreak_def)
qed

subsection \<open>The overlay\<close>

lemma h_removeConstruct_frame:
  "n \<le> ic \<Longrightarrow> n \<le> length h \<Longrightarrow> take n (h_removeConstruct ic code name h) = take n h"
  by (auto simp: h_removeConstruct_def set_field_def alloc_def Let_def
      split: slot.splits option.splits cell.splits)

lemma h_removeConstruct_length: "length h \<le> length (h_removeConstruct ic code name h)"
  by (auto simp: h_removeConstruct_def set_field_def alloc_def Let_def
      split: slot.splits option.splits cell.splits)

lemma h_inlineConstructs_frame:
  "h_inlineConstructs text h = (ic, h') \<Longrightarrow>
     ic = length h \<and> take (length h) h' = h \<and> length h < length h'"
proof -
  assume a: "h_inlineConstructs text h = (ic, h')"
  let ?n = "length h"
  let ?h1 = "h @ [RegistryObject (slots_of h text)]"
  let ?h2 = "h_removeConstruct ?n lessThan_code ''mdxJsxTextTag'' ?h1"
  let ?h3 = "h_removeConstruct ?n leftCurlyBrace ''mdxTextExpression'' ?h2"
  let ?h4 = "h_removeConstruct ?n carriageReturn ''lineEnding'' ?h3"
  let ?h5 = "h_removeConstruct ?n lineFeed ''lineEnding'' ?h4"
  let ?h6 = "h_removeConstruct ?n carriageReturnLineFeed ''lineEnding'' ?h5"
  from a have ic: "ic = ?n" and h': "h' = ?h6"
    by (auto simp: h_inlineConstructs_def object_assign_empty_def alloc_def Let_def)
  have l1: "?n \<le> length ?h1" by simp
  have l2: "?n \<le> length ?h2" using l1 h_removeConstruct_length le_trans by blast
  have l3: "?n \<le> length ?h3" using l2 h_removeConstruct_length le_trans by blast
  have l4: "?n \<le> length ?h4" using l3 h_removeConstruct_length le_trans by blast
  have l5: "?n \<le> length ?h5" using l4 h_removeConstruct_length le_trans by blast
  have "length ?h1 \<le> length ?h2" by (rule h_removeConstruct_length)
  also have "\<dots> \<le> length ?h3" by (rule h_removeConstruct_length)
  also have "\<dots> \<le> length ?h4" by (rule h_removeConstruct_length)
  also have "\<dots> \<le> length ?h5" by (rule h_removeConstruct_length)
  also have "\<dots> \<le> length ?h6" by (rule h_removeConstruct_length)
  finally have l6: "?n < length ?h6" by simp
  have "take ?n ?h6 = take ?n ?h5" by (rule h_removeConstruct_frame [OF order_refl l5])
  also have "\<dots> = take ?n ?h4" by (rule h_removeConstruct_frame [OF order_refl l4])
  also have "\<dots> = take ?n ?h3" by (rule h_removeConstruct_frame [OF order_refl l3])
  also have "\<dots> = take ?n ?h2" by (rule h_removeConstruct_frame [OF order_refl l2])
  also have "\<dots> = take ?n ?h1" by (rule h_removeConstruct_frame [OF order_refl l1])
  also have "\<dots> = h" by simp
  finally show ?thesis using ic h' l6 by simp
qed


text \<open>
  Claim C8. The suppression is an overlay: the copy is a new object, and the copy and each
  call of \<^verbatim>\<open>removeConstruct\<close> leave every object that was in the store before (the
  ambient registry \<^verbatim>\<open>parser.constructs.text\<close>, its arrays and its constructs among
  them) as it was; they write to the copy and to arrays allocated after it.
\<close>

theorem C8_overlay_frame:
  "text < length h \<Longrightarrow> h_inlineConstructs text h = (ic, h') \<Longrightarrow>
     ic \<noteq> text \<and> ic = length h \<and> length h < length h'
   \<and> take (length h) h' = h
   \<and> (\<forall>a. a < length h \<longrightarrow> lookup h' a = lookup h a)
   \<and> (\<forall>code name h1. length h \<le> length h1 \<longrightarrow>
         take (length h) (h_removeConstruct ic code name h1) = take (length h) h1)"
proof -
  assume t: "text < length h" and a: "h_inlineConstructs text h = (ic, h')"
  from h_inlineConstructs_frame [OF a] have ic: "ic = length h" and fr: "take (length h) h' = h"
    and len: "length h < length h'"
    by simp_all
  have lk: "lookup h' a = lookup h a" if "a < length h" for a
  proof -
    have "h' ! a = take (length h) h' ! a" using that by simp
    then show ?thesis using that len fr by (simp add: lookup_def)
  qed
  have rc: "take (length h) (h_removeConstruct ic code name h1) = take (length h) h1"
    if "length h \<le> length h1" for code name h1
    using that ic by (simp add: h_removeConstruct_frame)
  show ?thesis using t ic len fr lk rc by simp
qed

theorem C8_overlay_frame_witness:
  "fst (h_inlineConstructs 0 store0) = 4
   \<and> take 4 (snd (h_inlineConstructs 0 store0)) = store0
   \<and> slots_of (snd (h_inlineConstructs 0 store0)) 4 (Some lessThan_code) = Ref 5
   \<and> lookup (snd (h_inlineConstructs 0 store0)) 5 = Some (ArrayObject [3])
   \<and> lookup (snd (h_inlineConstructs 0 store0)) 1 = Some (ArrayObject [2, 3])"
proof -
  obtain ic h' where r: "h_inlineConstructs 0 store0 = (ic, h')" by (cases "h_inlineConstructs 0 store0")
  have t: "0 < length store0" by (simp add: store0_def)
  have l: "length store0 = 4" by (simp add: store0_def)
  from C8_overlay_frame [OF t r] l
  have ic: "ic = 4" and fr: "take 4 h' = store0" by simp_all
  have f: "slots_of h' 4 (Some lessThan_code) = Ref 5" and a: "lookup h' 5 = Some (ArrayObject [3])"
    and b: "lookup h' 1 = Some (ArrayObject [2, 3])"
    using r
    by (auto simp: h_inlineConstructs_def object_assign_empty_def alloc_def Let_def store0_def
        h_removeConstruct_def set_field_def slots_of_def lookup_def name_at_def autolink_def
        codes_defs nth_append split: if_splits)
  show ?thesis using r ic fr f a b by simp
qed

text \<open>The overlay on the store is the overlay the scanner consults: the registry that the
  copy stands for after the five calls is \<open>inlineConstructs\<close> of the registry that the text
  constructs stand for.\<close>

lemma constructs_at_same:
  "(\<And>a. construct_of h' a = construct_of h a) \<Longrightarrow> constructs_at h' as = constructs_at h as"
proof -
  assume "\<And>a. construct_of h' a = construct_of h a"
  then have "construct_of h' = construct_of h" by (rule ext)
  then show ?thesis by (simp add: constructs_at_def)
qed

lemma constructs_at_filter:
  "constructs_at h (filter (\<lambda>c. name_at h c \<noteq> Some name) list) =
     filter (\<lambda>c. c_name c \<noteq> Some name) (constructs_at h list)"
  by (induction list)
     (auto simp: constructs_at_def construct_of_def map_filter_simps name_at_def
        split: option.splits cell.splits)

lemma view_removeConstruct:
  assumes v: "valid_registry h ic"
  shows "view (h_removeConstruct ic code name h) ic = removeConstruct code name (view h ic)
    \<and> valid_registry (h_removeConstruct ic code name h) ic"
proof -
  from v obtain g where g: "lookup h ic = Some (RegistryObject g)"
    and val: "\<And>k l. g k = Ref l \<Longrightarrow> l < length h"
    by (auto simp: valid_registry_def)
  from g have ic: "ic < length h" and hic: "h ! ic = RegistryObject g"
    by (auto simp: lookup_def split: if_splits)
  have sl: "slots_of h ic = g" using g by (simp add: slots_of_def)
  show ?thesis
  proof (cases "g (Some code)")
    case Undefined
    then show ?thesis
      using v sl by (auto simp: h_removeConstruct_def view_def removeConstruct_def)
  next
    case (Ref l)
    from val [OF Ref] have l: "l < length h" .
    show ?thesis
    proof (cases "h ! l")
      case (RegistryObject g')
      then show ?thesis
        using v sl Ref l
        by (auto simp: h_removeConstruct_def view_def removeConstruct_def lookup_def)
    next
      case (ConstructObject c)
      show ?thesis
      proof (cases "c_name c = Some name")
        case False
        then show ?thesis
          using v sl Ref l ConstructObject
          by (auto simp: h_removeConstruct_def view_def removeConstruct_def lookup_def)
      next
        case True
        let ?h' = "h[ic := RegistryObject (g(Some code := Undefined))]"
        have h': "h_removeConstruct ic code name h = ?h'"
          using sl Ref l ConstructObject True
          by (simp add: h_removeConstruct_def lookup_def set_field_def)
        have sl': "slots_of ?h' ic = g(Some code := Undefined)"
          using ic by (simp add: slots_of_def lookup_def)
        have co: "construct_of ?h' a = construct_of h a" for a
          using ic hic by (auto simp: construct_of_def lookup_def nth_list_update)
        have lk: "a \<noteq> ic \<Longrightarrow> lookup ?h' a = lookup h a" for a
          by (simp add: lookup_def)
        have vw: "view ?h' ic k = removeConstruct code name (view h ic) k" for k
        proof (cases "k = Some code")
          case True
          then show ?thesis
            using sl sl' Ref l ConstructObject \<open>c_name c = Some name\<close>
            by (simp add: view_def removeConstruct_def lookup_def)
        next
          case False
          have "view ?h' ic k = view h ic k"
          proof (cases "g k")
            case Undefined
            then show ?thesis using sl sl' False by (simp add: view_def)
          next
            case (Ref l')
            show ?thesis
            proof (cases "l' = ic")
              case True
              then show ?thesis
                using sl sl' False Ref ic hic by (simp add: view_def lookup_def)
            next
              case ne: False
              then show ?thesis
                using sl sl' False Ref lk [OF ne] constructs_at_same [of ?h' h, OF co]
                by (simp add: view_def split: option.splits cell.splits)
            qed
          qed
          then show ?thesis
            using False sl \<open>g (Some code) = Ref l\<close> l ConstructObject \<open>c_name c = Some name\<close>
            by (simp add: removeConstruct_def view_def lookup_def)
        qed
        have va: "valid_registry ?h' ic"
          using ic val by (auto simp: valid_registry_def lookup_def)
        show ?thesis using vw va by (auto simp: h')
      qed
    next
      case (ArrayObject list)
      let ?new = "ArrayObject (filter (\<lambda>c. name_at h c \<noteq> Some name) list)"
      let ?h' = "(h @ [?new])[ic := RegistryObject (g(Some code := Ref (length h)))]"
      have h': "h_removeConstruct ic code name h = ?h'"
        using sl Ref l ArrayObject ic hic
        by (simp add: h_removeConstruct_def lookup_def set_field_def alloc_def slots_of_def
            nth_append)
      have sl': "slots_of ?h' ic = g(Some code := Ref (length h))"
        using ic by (simp add: slots_of_def lookup_def)
      have co: "construct_of ?h' a = construct_of h a" for a
        using ic hic by (auto simp: construct_of_def lookup_def nth_list_update nth_append)
      have lk: "a \<noteq> ic \<Longrightarrow> a < length h \<Longrightarrow> lookup ?h' a = lookup h a" for a
        by (simp add: lookup_def nth_append)
      have new: "lookup ?h' (length h) = Some ?new"
        using ic by (simp add: lookup_def)
      have vw: "view ?h' ic k = removeConstruct code name (view h ic) k" for k
      proof (cases "k = Some code")
        case True
        then show ?thesis
          using sl sl' Ref l ArrayObject new constructs_at_same [of ?h' h, OF co]
          by (simp add: view_def removeConstruct_def lookup_def constructs_at_filter)
      next
        case False
        have "view ?h' ic k = view h ic k"
        proof (cases "g k")
          case Undefined
          then show ?thesis using sl sl' False by (simp add: view_def)
        next
          case (Ref l')
          from val [OF Ref] have l': "l' < length h" .
          show ?thesis
          proof (cases "l' = ic")
            case True
            then show ?thesis
              using sl sl' False Ref ic hic by (simp add: view_def lookup_def)
          next
            case ne: False
            then show ?thesis
              using sl sl' False Ref lk [OF ne l'] constructs_at_same [of ?h' h, OF co]
              by (simp add: view_def split: option.splits cell.splits)
          qed
        qed
        then show ?thesis
          using False sl \<open>g (Some code) = Ref l\<close> l ArrayObject
          by (simp add: removeConstruct_def view_def lookup_def)
      qed
      have va: "valid_registry ?h' ic"
        using ic val by (auto simp: valid_registry_def lookup_def less_Suc_eq)
      show ?thesis using vw va by (auto simp: h')
    qed
  qed
qed

lemma view_copy:
  assumes "valid_registry h text"
  shows "view (h @ [RegistryObject (slots_of h text)]) (length h) = view h text
    \<and> valid_registry (h @ [RegistryObject (slots_of h text)]) (length h)"
proof -
  from assms obtain g where g: "lookup h text = Some (RegistryObject g)"
    and val: "\<And>k l. g k = Ref l \<Longrightarrow> l < length h"
    by (auto simp: valid_registry_def)
  have sl: "slots_of h text = g" using g by (simp add: slots_of_def)
  let ?h' = "h @ [RegistryObject g]"
  have sl': "slots_of ?h' (length h) = g" by (simp add: slots_of_def lookup_def)
  have co: "construct_of ?h' a = construct_of h a" for a
    by (auto simp: construct_of_def lookup_def nth_append)
  have lk: "a < length h \<Longrightarrow> lookup ?h' a = lookup h a" for a
    by (simp add: lookup_def nth_append)
  have "view ?h' (length h) k = view h text k" for k
  proof (cases "g k")
    case Undefined
    then show ?thesis using sl sl' by (simp add: view_def)
  next
    case (Ref l)
    from val [OF Ref] have "l < length h" .
    then show ?thesis
      using sl sl' Ref lk [of l] constructs_at_same [of ?h' h, OF co]
      by (simp add: view_def split: option.splits cell.splits)
  qed
  then have "view ?h' (length h) = view h text" by (rule ext)
  moreover have "valid_registry ?h' (length h)"
    using val by (auto simp: valid_registry_def lookup_def less_Suc_eq)
  ultimately show ?thesis by (simp add: sl)
qed

lemma view_inlineConstructs:
  assumes "valid_registry h text" "h_inlineConstructs text h = (ic, h')"
  shows "view h' ic = inlineConstructs (view h text)"
proof -
  let ?n = "length h"
  let ?h1 = "h @ [RegistryObject (slots_of h text)]"
  let ?h2 = "h_removeConstruct ?n lessThan_code ''mdxJsxTextTag'' ?h1"
  let ?h3 = "h_removeConstruct ?n leftCurlyBrace ''mdxTextExpression'' ?h2"
  let ?h4 = "h_removeConstruct ?n carriageReturn ''lineEnding'' ?h3"
  let ?h5 = "h_removeConstruct ?n lineFeed ''lineEnding'' ?h4"
  let ?h6 = "h_removeConstruct ?n carriageReturnLineFeed ''lineEnding'' ?h5"
  from assms(2) have ic: "ic = ?n" and h': "h' = ?h6"
    by (auto simp: h_inlineConstructs_def object_assign_empty_def alloc_def Let_def)
  note c1 = view_copy [OF assms(1)]
  note c2 = view_removeConstruct [OF c1 [THEN conjunct2], of lessThan_code "''mdxJsxTextTag''"]
  note c3 = view_removeConstruct [OF c2 [THEN conjunct2], of leftCurlyBrace "''mdxTextExpression''"]
  note c4 = view_removeConstruct [OF c3 [THEN conjunct2], of carriageReturn "''lineEnding''"]
  note c5 = view_removeConstruct [OF c4 [THEN conjunct2], of lineFeed "''lineEnding''"]
  note c6 = view_removeConstruct [OF c5 [THEN conjunct2], of carriageReturnLineFeed "''lineEnding''"]
  show ?thesis
    unfolding ic h' inlineConstructs_def
    by (simp only: c6 [THEN conjunct1] c5 [THEN conjunct1] c4 [THEN conjunct1]
        c3 [THEN conjunct1] c2 [THEN conjunct1] c1 [THEN conjunct1])
qed

subsection \<open>The resolver: the loops compute the passes of the specification\<close>

lemma flat_append: "flat (xs @ ys) = flat xs @ flat ys"
  by (induction xs rule: flat.induct) auto

lemma ws_done: "length (r_events s) < i \<Longrightarrow> whitespace_loop slice i s = s"
  by (subst whitespace_loop.simps) simp

lemma ws_skip:
  "i \<le> length (r_events s) \<Longrightarrow>
   \<not> ((i = length (r_events s) \<or> type_at s i = ''lineEnding'') \<and> type_at s (i - 1) = ''data'') \<Longrightarrow>
   whitespace_loop slice i s = whitespace_loop slice (i + 1) s"
  by (subst whitespace_loop.simps) auto

lemma ws_process:
  "i \<le> length (r_events s) \<Longrightarrow>
   (i = length (r_events s) \<or> type_at s i = ''lineEnding'') \<Longrightarrow> type_at s (i - 1) = ''data'' \<Longrightarrow>
   whitespace_loop slice i s =
     (case classify slice (i = length (r_events s)) (r_tokens s ! snd (r_events s ! (i - 1))) of
        Keep \<Rightarrow> whitespace_loop slice (i + 2) s
      | Reclassify token \<Rightarrow>
          whitespace_loop slice (i + 2)
            (s\<lparr>r_tokens := (r_tokens s)[snd (r_events s ! (i - 1)) := token]\<rparr>)
      | Split data' token \<Rightarrow>
          whitespace_loop slice (i + 4)
            \<lparr>r_events = splice_in i [(Enter, length (r_tokens s)), (Exit, length (r_tokens s))]
                 (r_events s),
             r_tokens = (r_tokens s)[snd (r_events s ! (i - 1)) := data'] @ [token]\<rparr>)"
  by (subst whitespace_loop.simps) (auto simp: classify_def trailing_def Let_def)

lemma item_ok_update: "item_ok h x \<Longrightarrow> item_addr x \<noteq> a \<Longrightarrow> item_ok (h[a := t]) x"
  by (cases x) auto

lemma item_ok_append: "item_ok h x \<Longrightarrow> item_ok (h @ [t]) x"
  by (cases x) (auto simp: nth_append)

lemma wf_rest_update: "wf_rest h r \<Longrightarrow> a \<notin> item_addr ` set r \<Longrightarrow> wf_rest (h[a := t]) r"
  by (induction r) (auto simp: item_ok_update)

lemma wf_rest_append: "wf_rest h r \<Longrightarrow> wf_rest (h @ [t]) r"
  by (induction r) (auto simp: item_ok_append)

lemma classify_type:
  "classify slice e d = Reclassify t \<Longrightarrow> t_type t = ''lineSuffix'' \<or> t_type t = ''hardBreakTrailing''"
  "classify slice e d = Split d' t \<Longrightarrow>
     (t_type t = ''lineSuffix'' \<or> t_type t = ''hardBreakTrailing'') \<and> t_type d' = t_type d"
  by (auto simp: classify_def suffix_token_def Let_def split: if_splits prod.splits)

lemma nth_app0: "(P @ x # R) ! length P = x"
  by simp

lemma nth_app1: "(P @ x # y # R) ! Suc (length P) = y"
  by (simp add: nth_append)

lemma nth_app2: "(P @ x # y # z # R) ! Suc (Suc (length P)) = z"
  by (simp add: nth_append)

lemma nth_app_last: "P \<noteq> [] \<Longrightarrow> (P @ R) ! (length P - Suc 0) = last P"
  by (simp add: nth_append last_conv_nth)

lemma nth_last: "P \<noteq> [] \<Longrightarrow> P ! (length P - Suc 0) = last P"
  by (simp add: last_conv_nth)

lemma ws_refine_Nil_A:
  assumes "P \<noteq> []" "t_type (h ! snd (last P)) \<noteq> ''data''"
  shows "whitespace_loop slice (length P) (St P h) = St P h"
proof -
  have "whitespace_loop slice (length P) (St P h) = whitespace_loop slice (length P + 1) (St P h)"
    using assms by (intro ws_skip) (auto simp: type_at_def last_conv_nth)
  then show ?thesis by (simp add: ws_done)
qed

lemma ws_skip_St:
  "i \<le> length ev \<Longrightarrow>
   \<not> ((i = length ev \<or> t_type (h ! snd (ev ! i)) = ''lineEnding'')
      \<and> t_type (h ! snd (ev ! (i - 1))) = ''data'') \<Longrightarrow>
   whitespace_loop slice i (St ev h) = whitespace_loop slice (Suc i) (St ev h)"
  using ws_skip [of i "St ev h" slice] by (simp add: type_at_def)

lemma ws_process_St:
  "i \<le> length ev \<Longrightarrow>
   (i = length ev \<or> t_type (h ! snd (ev ! i)) = ''lineEnding'') \<Longrightarrow>
   t_type (h ! a) = ''data'' \<Longrightarrow> snd (ev ! (i - 1)) = a \<Longrightarrow>
   whitespace_loop slice i (St ev h) =
     (case classify slice (i = length ev) (h ! a) of
        Keep \<Rightarrow> whitespace_loop slice (Suc (Suc i)) (St ev h)
      | Reclassify token \<Rightarrow> whitespace_loop slice (Suc (Suc i)) (St ev (h[a := token]))
      | Split data' token \<Rightarrow>
          whitespace_loop slice (Suc (Suc (Suc (Suc i))))
            (St (splice_in i [(Enter, length h), (Exit, length h)] ev)
                (h[a := data'] @ [token])))"
proof -
  have four: "i + 4 = Suc (Suc (Suc (Suc i)))" by simp
  assume "i \<le> length ev"
    "i = length ev \<or> t_type (h ! snd (ev ! i)) = ''lineEnding''"
    "t_type (h ! a) = ''data''" "snd (ev ! (i - 1)) = a"
  then show ?thesis
    using ws_process [of i "St ev h" slice]
    by (simp add: type_at_def four split: action.splits)
qed

lemma ws_refine_Nil_B:
  assumes "item_ok h (DataTok a)"
  shows "whitespace_loop slice (Suc (Suc (length P))) (St (P @ [(Enter, a), (Exit, a)]) h) =
     (case ws_items slice [DataTok a] h of (out, h') \<Rightarrow> St (P @ flat out) h')"
proof -
  have "whitespace_loop slice (Suc (Suc (length P))) (St (P @ [(Enter, a), (Exit, a)]) h) =
     (case classify slice True (h ! a) of
        Keep \<Rightarrow> whitespace_loop slice (Suc (Suc (Suc (Suc (length P)))))
                 (St (P @ [(Enter, a), (Exit, a)]) h)
      | Reclassify token \<Rightarrow>
          whitespace_loop slice (Suc (Suc (Suc (Suc (length P)))))
             (St (P @ [(Enter, a), (Exit, a)]) (h[a := token]))
      | Split data' token \<Rightarrow>
          whitespace_loop slice (Suc (Suc (Suc (Suc (Suc (Suc (length P)))))))
            (St (splice_in (Suc (Suc (length P))) [(Enter, length h), (Exit, length h)]
                 (P @ [(Enter, a), (Exit, a)]))
             (h[a := data'] @ [token])))"
    using assms
      ws_process_St [of "Suc (Suc (length P))" "P @ [(Enter, a), (Exit, a)]" h a slice]
    by (simp add: nth_app1)
  then show ?thesis
    by (auto simp: ws_done splice_in_def split: action.splits)
qed

lemma ws_refine:
  "wf_rest h rest \<Longrightarrow>
     (P \<noteq> [] \<longrightarrow> t_type (h ! snd (last P)) \<noteq> ''data'' \<longrightarrow>
        whitespace_loop slice (length P) (St (P @ flat rest) h) =
          (case ws_items slice rest h of (out, h') \<Rightarrow> St (P @ flat out) h'))
   \<and> (\<forall>a. item_ok h (DataTok a) \<longrightarrow> a \<notin> item_addr ` set rest \<longrightarrow>
        whitespace_loop slice (Suc (Suc (length P))) (St (P @ (Enter, a) # (Exit, a) # flat rest) h) =
          (case ws_items slice (DataTok a # rest) h of (out, h') \<Rightarrow> St (P @ flat out) h'))"
proof (induction rest arbitrary: P h)
  case Nil
  show ?case using ws_refine_Nil_A [of P h slice] ws_refine_Nil_B [of h _ slice P] by simp
next
  case (Cons x r)
  from Cons.prems have okx: "item_ok h x" and wfr: "wf_rest h r"
    and dx: "is_DataTok x \<Longrightarrow> item_addr x \<notin> item_addr ` set r" by auto
  note IH_A = Cons.IH [THEN conjunct1, rule_format]
  note IH_B = Cons.IH [THEN conjunct2, rule_format]
  show ?case
  proof (intro conjI allI impI)
    \<comment> \<open>the position after an event that is not data\<close>
    assume P: "P \<noteq> []" and lastP: "t_type (h ! snd (last P)) \<noteq> ''data''"
    have skip0: "whitespace_loop slice (length P) (St (P @ flat (x # r)) h) =
        whitespace_loop slice (Suc (length P)) (St (P @ flat (x # r)) h)"
      using P lastP by (intro ws_skip_St) (auto simp: nth_app_last nth_last)
    show "whitespace_loop slice (length P) (St (P @ flat (x # r)) h) =
          (case ws_items slice (x # r) h of (out, h') \<Rightarrow> St (P @ flat out) h')"
    proof (cases x)
      case (Other e)
      have "whitespace_loop slice (Suc (length P)) (St (P @ flat (x # r)) h) =
          (case ws_items slice r h of (out, h') \<Rightarrow> St ((P @ [e]) @ flat out) h')"
        using IH_A [OF wfr, of "P @ [e]"] okx Other by simp
      then show ?thesis using skip0 Other by (simp split: prod.splits)
    next
      case (LineEnd b)
      have "whitespace_loop slice (Suc (length P)) (St (P @ flat (x # r)) h) =
          whitespace_loop slice (Suc (Suc (length P))) (St (P @ flat (x # r)) h)"
        using okx LineEnd by (intro ws_skip_St) (auto simp: nth_app0)
      also have "\<dots> = (case ws_items slice r h of
            (out, h') \<Rightarrow> St ((P @ [(Enter, b), (Exit, b)]) @ flat out) h')"
        using IH_A [OF wfr, of "P @ [(Enter, b), (Exit, b)]"] okx LineEnd by simp
      finally show ?thesis using skip0 LineEnd by (simp split: prod.splits)
    next
      case (DataTok a)
      have "whitespace_loop slice (Suc (length P)) (St (P @ flat (x # r)) h) =
          whitespace_loop slice (Suc (Suc (length P))) (St (P @ flat (x # r)) h)"
        using okx DataTok by (intro ws_skip_St) (auto simp: nth_app0 nth_app1)
      also have "\<dots> = (case ws_items slice (DataTok a # r) h of
            (out, h') \<Rightarrow> St (P @ flat out) h')"
        using IH_B [OF wfr, of a P] okx dx DataTok by simp
      finally show ?thesis using skip0 DataTok by simp
    qed
  next
    \<comment> \<open>the position after the exit of a data token\<close>
    fix a
    assume oka: "item_ok h (DataTok a)" and da: "a \<notin> item_addr ` set (x # r)"
    let ?ev = "P @ (Enter, a) # (Exit, a) # flat (x # r)"
    let ?i = "Suc (Suc (length P))"
    show "whitespace_loop slice ?i (St ?ev h) =
          (case ws_items slice (DataTok a # x # r) h of (out, h') \<Rightarrow> St (P @ flat out) h')"
    proof (cases x)
      case (Other e)
      have "whitespace_loop slice ?i (St ?ev h) = whitespace_loop slice (Suc ?i) (St ?ev h)"
        using okx Other by (intro ws_skip_St) (auto simp: nth_app2)
      also have "\<dots> = (case ws_items slice r h of
            (out, h') \<Rightarrow> St ((P @ [(Enter, a), (Exit, a), e]) @ flat out) h')"
        using IH_A [OF wfr, of "P @ [(Enter, a), (Exit, a), e]"] okx Other by simp
      finally show ?thesis using Other by (simp split: prod.splits)
    next
      case (DataTok a')
      have "whitespace_loop slice ?i (St ?ev h) = whitespace_loop slice (Suc ?i) (St ?ev h)"
        using okx DataTok by (intro ws_skip_St) (auto simp: nth_app2)
      also have "\<dots> = whitespace_loop slice (Suc (Suc ?i)) (St ?ev h)"
        using okx DataTok
        by (intro ws_skip_St) (auto simp: nth_append)
      also have "\<dots> = (case ws_items slice (DataTok a' # r) h of
            (out, h') \<Rightarrow> St ((P @ [(Enter, a), (Exit, a)]) @ flat out) h')"
        using IH_B [OF wfr, of a' "P @ [(Enter, a), (Exit, a)]"] okx dx DataTok by simp
      finally show ?thesis using DataTok by (simp split: prod.splits)
    next
      case (LineEnd b)
      from da LineEnd have ab: "a \<noteq> b" and ar: "a \<notin> item_addr ` set r" by auto
      from okx LineEnd have b: "b < length h" "t_type (h ! b) = ''lineEnding''" by auto
      let ?ev' = "P @ (Enter, a) # (Exit, a) # (Enter, b) # (Exit, b) # flat r"
      let ?P' = "P @ [(Enter, a), (Exit, a), (Enter, b), (Exit, b)]"
      let ?P'' = "P @ [(Enter, a), (Exit, a), (Enter, length h), (Exit, length h), (Enter, b), (Exit, b)]"
      have proc: "whitespace_loop slice ?i (St ?ev' h) =
        (case classify slice False (h ! a) of
           Keep \<Rightarrow> whitespace_loop slice (Suc (Suc ?i)) (St ?ev' h)
         | Reclassify token \<Rightarrow> whitespace_loop slice (Suc (Suc ?i)) (St ?ev' (h[a := token]))
         | Split data' token \<Rightarrow>
             whitespace_loop slice (Suc (Suc (Suc (Suc ?i))))
               (St (splice_in ?i [(Enter, length h), (Exit, length h)] ?ev')
                   (h[a := data'] @ [token])))"
        using oka b LineEnd ws_process_St [of ?i ?ev' h a slice]
        by (simp add: nth_app1 nth_app2)
      have keep: "whitespace_loop slice (Suc (Suc ?i)) (St ?ev' h) =
          (case ws_items slice r h of (out, h') \<Rightarrow> St (?P' @ flat out) h')"
        using IH_A [OF wfr, of ?P'] b LineEnd by simp
      have recl: "whitespace_loop slice (Suc (Suc ?i)) (St ?ev' (h[a := t])) =
          (case ws_items slice r (h[a := t]) of (out, h') \<Rightarrow> St (?P' @ flat out) h')" for t
        using IH_A [OF wf_rest_update [OF wfr ar], of ?P'] b ab LineEnd by simp
      have spl: "whitespace_loop slice (Suc (Suc (Suc (Suc ?i))))
               (St (splice_in ?i [(Enter, length h), (Exit, length h)] ?ev') (h[a := d] @ [t])) =
          (case ws_items slice r (h[a := d] @ [t]) of (out, h') \<Rightarrow> St (?P'' @ flat out) h')" for d t
        using IH_A [OF wf_rest_append [OF wf_rest_update [OF wfr ar]], of ?P''] b ab LineEnd
        by (simp add: splice_in_def nth_append)
      show ?thesis
        using LineEnd
        by (simp add: proc keep recl spl split: action.splits prod.splits)
    qed
  qed
qed

lemma ws_refine_top:
  assumes "wf_rest h items"
  shows "whitespace_loop slice 1 (St (flat items) h) =
     (case ws_items slice items h of (out, h') \<Rightarrow> St (flat out) h')"
proof (cases items)
  case Nil
  then show ?thesis by (simp add: ws_done)
next
  case (Cons x r)
  with assms have okx: "item_ok h x" and wfr: "wf_rest h r"
    and dx: "is_DataTok x \<Longrightarrow> item_addr x \<notin> item_addr ` set r" by auto
  show ?thesis
  proof (cases x)
    case (Other e)
    show ?thesis
      using ws_refine [OF wfr, THEN conjunct1, rule_format, of "[e]" slice] okx Other Cons
      by (simp split: prod.splits)
  next
    case (LineEnd b)
    have "whitespace_loop slice (Suc 0) (St ((Enter, b) # (Exit, b) # flat r) h) =
        whitespace_loop slice (Suc (Suc 0)) (St ((Enter, b) # (Exit, b) # flat r) h)"
      using okx LineEnd by (intro ws_skip_St) auto
    then show ?thesis
      using ws_refine [OF wfr, THEN conjunct1, rule_format, of "[(Enter, b), (Exit, b)]" slice]
        okx LineEnd Cons
      by (simp split: prod.splits)
  next
    case (DataTok a)
    have "whitespace_loop slice (Suc 0) (St ((Enter, a) # (Exit, a) # flat r) h) =
        whitespace_loop slice (Suc (Suc 0)) (St ((Enter, a) # (Exit, a) # flat r) h)"
      using okx DataTok by (intro ws_skip_St) auto
    then show ?thesis
      using ws_refine [OF wfr, THEN conjunct2, rule_format, of a slice "[]"] okx dx DataTok Cons
      by simp
  qed
qed

lemma merge_done: "length (r_events s) < i \<Longrightarrow> merge_loop i e s = s"
  by (subst merge_loop.simps) simp

lemma merge_None_St:
  "i \<le> length ev \<Longrightarrow>
   merge_loop i None (St ev h) =
     (if i < length ev \<and> t_type (h ! snd (ev ! i)) = ''data''
      then merge_loop (Suc (Suc i)) (Some i) (St ev h)
      else merge_loop (Suc i) None (St ev h))"
  by (subst merge_loop.simps) (simp add: is_data_at_def type_at_def)

lemma merge_Some_St:
  "i \<le> length ev \<Longrightarrow>
   merge_loop i (Some e) (St ev h) =
     (if i < length ev \<and> t_type (h ! snd (ev ! i)) = ''data''
      then merge_loop (Suc i) (Some e) (St ev h)
      else if i \<noteq> Suc (Suc e) then merge_loop (Suc (Suc (Suc e))) None (merge_at e i (St ev h))
      else merge_loop (Suc i) None (St ev h))"
proof -
  have three: "e + 3 = Suc (Suc (Suc e))" by simp
  assume "i \<le> length ev"
  then show ?thesis
    by (subst merge_loop.simps) (simp add: is_data_at_def type_at_def three)
qed

lemma merge_Some_nodata:
  "i \<le> length ev \<Longrightarrow> \<not> (i < length ev \<and> t_type (h ! snd (ev ! i)) = ''data'') \<Longrightarrow>
   merge_loop i (Some e) (St ev h) =
     (if i \<noteq> Suc (Suc e) then merge_loop (Suc (Suc (Suc e))) None (merge_at e i (St ev h))
      else merge_loop (Suc i) None (St ev h))"
  using merge_Some_St [of i ev e h] by auto

lemma type_update_end: "t_type (h[a := (h ! a)\<lparr>t_end := p\<rparr>] ! b) = t_type (h ! b)"
  by (cases "a < length h") (auto simp: nth_list_update list_update_beyond)

lemma item_ok_merged: "item_ok (merged a rn h) x = item_ok h x"
  by (cases x) (auto simp: merged_def type_update_end)

lemma list_all_item_ok_merged: "list_all (item_ok (merged a rn h)) xs = list_all (item_ok h) xs"
  by (induction xs) (auto simp: item_ok_merged)

lemma length_flat_run: "length (flat (map DataTok rn)) = 2 * length rn"
  by (induction rn) auto

lemma flat_run_snoc: "flat (map DataTok (rn @ [b])) = flat (map DataTok rn) @ [(Enter, b), (Exit, b)]"
  by (induction rn) auto

lemma last_flat_run: "rn \<noteq> [] \<Longrightarrow> last (flat (map DataTok rn)) = (Exit, last rn)"
  by (induction rn rule: rev_induct) (auto simp: flat_append)

lemma merge_at_run:
  assumes "R \<noteq> []"
  shows "merge_at (length P) (Suc (Suc (length P + length R))) (St (P @ x # y # R @ T) h) =
     St (P @ x # y # T) (h[snd x := (h ! snd x)\<lparr>t_end := t_end (h ! snd (last R))\<rparr>])"
proof -
  have l: "(P @ x # y # R @ T) ! (Suc (Suc (length P + length R)) - 1) = last R"
    using assms by (simp add: nth_append last_conv_nth)
  have d: "drop (Suc (Suc (length P + length R))) (P @ x # y # R @ T) = T"
    by simp
  have t: "take (Suc (Suc (length P))) (P @ x # y # R @ T) = P @ [x, y]"
    by simp
  have c: "length P + 2 + (Suc (Suc (length P + length R)) - length P - 2) = Suc (Suc (length P + length R))"
    by simp
  show ?thesis
    unfolding merge_at_def splice_out_def Let_def
    using l d t c by simp
qed

lemma nth_app_run0: "(P @ x # y # R @ t # T) ! Suc (Suc (length P + length R)) = t"
  by (simp add: nth_append)

lemma nth_app_run1: "(P @ x # y # R @ t # u # T) ! Suc (Suc (Suc (length P + length R))) = u"
  by (simp add: nth_append)

lemma merge_items_DataTok:
  "merge_items (DataTok a # rest) h =
     (case merge_items (dropWhile is_DataTok rest)
             (merged a (map item_addr (takeWhile is_DataTok rest)) h) of
        (out, h') \<Rightarrow> (DataTok a # out, h'))"
  by (simp add: merged_def Let_def last_map)

declare merge_items.simps(2) [simp del]

lemma merge_refine:
  "list_all (item_ok h) rest \<Longrightarrow>
     merge_loop (length P) None (St (P @ flat rest) h) =
       (case merge_items rest h of (out, h') \<Rightarrow> St (P @ flat out) h')
   \<and> (\<forall>a rn.
        merge_loop (Suc (Suc (length P + length (flat (map DataTok rn))))) (Some (length P))
          (St (P @ (Enter, a) # (Exit, a) # flat (map DataTok rn) @ flat rest) h) =
        (case merge_items (dropWhile is_DataTok rest)
                (merged a (rn @ map item_addr (takeWhile is_DataTok rest)) h) of
           (out, h') \<Rightarrow> St (P @ (Enter, a) # (Exit, a) # flat out) h'))"
proof (induction rest arbitrary: P h)
  case Nil
  show ?case
  proof (intro conjI allI)
    show "merge_loop (length P) None (St (P @ flat []) h) =
       (case merge_items [] h of (out, h') \<Rightarrow> St (P @ flat out) h')"
      by (simp add: merge_None_St merge_done)
  next
    fix a rn
    let ?R = "flat (map DataTok rn)"
    let ?i = "Suc (Suc (length P + length ?R))"
    let ?ev = "P @ (Enter, a) # (Exit, a) # ?R @ flat []"
    have step: "merge_loop ?i (Some (length P)) (St ?ev h) =
        (if ?i \<noteq> Suc (Suc (length P))
         then merge_loop (Suc (Suc (Suc (length P)))) None (merge_at (length P) ?i (St ?ev h))
         else merge_loop (Suc ?i) None (St ?ev h))"
      by (subst merge_Some_St) simp_all
    show "merge_loop ?i (Some (length P)) (St ?ev h) =
        (case merge_items (dropWhile is_DataTok [])
                (merged a (rn @ map item_addr (takeWhile is_DataTok [])) h) of
           (out, h') \<Rightarrow> St (P @ (Enter, a) # (Exit, a) # flat out) h')"
    proof (cases "rn = []")
      case True
      then show ?thesis using step by (simp add: merge_done merged_def)
    next
      case False
      then have R: "?R \<noteq> []" by (cases rn) auto
      have "merge_at (length P) ?i (St ?ev h) =
          St (P @ [(Enter, a), (Exit, a)]) (merged a rn h)"
        using merge_at_run [OF R, of P "(Enter, a)" "(Exit, a)" "[]" h] False
        by (simp add: merged_def last_flat_run)
      then show ?thesis using step R False by (simp add: merge_done)
    qed
  qed
next
  case (Cons x r)
  from Cons.prems have okx: "item_ok h x" and okr: "list_all (item_ok h) r" by auto
  note IH_A = Cons.IH [THEN conjunct1]
  note IH_B = Cons.IH [THEN conjunct2, rule_format]
  have after_first: "merge_loop (Suc (length P1)) None (St (P1 @ flat (x # r)) h1) =
       (case merge_items (x # r) h1 of (out, h') \<Rightarrow> St (P1 @ flat out) h')"
    if nd: "\<not> is_DataTok x" and ok1: "list_all (item_ok h1) (x # r)" for P1 h1
  proof (cases x)
    case (DataTok a)
    with nd show ?thesis by simp
  next
    case (Other e)
    from ok1 have "list_all (item_ok h1) r" by simp
    from IH_A [OF this, of "P1 @ [e]"] Other show ?thesis by (simp split: prod.splits)
  next
    case (LineEnd b)
    from ok1 have r1: "list_all (item_ok h1) r" and b: "t_type (h1 ! b) = ''lineEnding''"
      using LineEnd by auto
    have "merge_loop (Suc (length P1)) None (St (P1 @ (Enter, b) # (Exit, b) # flat r) h1) =
        merge_loop (Suc (Suc (length P1))) None (St (P1 @ (Enter, b) # (Exit, b) # flat r) h1)"
      using b by (subst merge_None_St) (simp_all add: nth_app1)
    with IH_A [OF r1, of "P1 @ [(Enter, b), (Exit, b)]"] LineEnd show ?thesis
      by (simp split: prod.splits)
  qed
  show ?case
  proof (intro conjI allI)
    show "merge_loop (length P) None (St (P @ flat (x # r)) h) =
       (case merge_items (x # r) h of (out, h') \<Rightarrow> St (P @ flat out) h')"
    proof (cases "is_DataTok x")
      case False
      have "merge_loop (length P) None (St (P @ flat (x # r)) h) =
          merge_loop (Suc (length P)) None (St (P @ flat (x # r)) h)"
        using False okx by (subst merge_None_St) (cases x; simp)+
      then show ?thesis using after_first [OF False, of h P] Cons.prems by simp
    next
      case True
      then obtain a where x: "x = DataTok a" by (cases x) auto
      have "merge_loop (length P) None (St (P @ flat (x # r)) h) =
          merge_loop (Suc (Suc (length P))) (Some (length P)) (St (P @ flat (x # r)) h)"
        using x okx by (subst merge_None_St) simp_all
      then show ?thesis
        using IH_B [OF okr, of P "[]" a] x by (simp add: merge_items_DataTok split: prod.splits)
    qed
  next
    fix a rn
    let ?R = "flat (map DataTok rn)"
    let ?i = "Suc (Suc (length P + length ?R))"
    let ?ev = "P @ (Enter, a) # (Exit, a) # ?R @ flat (x # r)"
    show "merge_loop ?i (Some (length P)) (St ?ev h) =
        (case merge_items (dropWhile is_DataTok (x # r))
                (merged a (rn @ map item_addr (takeWhile is_DataTok (x # r))) h) of
           (out, h') \<Rightarrow> St (P @ (Enter, a) # (Exit, a) # flat out) h')"
    proof (cases "is_DataTok x")
      case True
      then obtain a' where x: "x = DataTok a'" by (cases x) auto
      let ?ev' = "P @ (Enter, a) # (Exit, a) # ?R @ (Enter, a') # (Exit, a') # flat r"
      from okx x have d: "t_type (h ! a') = ''data''" by simp
      have "merge_loop ?i (Some (length P)) (St ?ev' h) =
          merge_loop (Suc ?i) (Some (length P)) (St ?ev' h)"
        using d by (subst merge_Some_St) (simp_all add: nth_app_run0)
      also have "\<dots> = merge_loop (Suc (Suc ?i)) (Some (length P)) (St ?ev' h)"
        using d by (subst merge_Some_St) (simp_all add: nth_app_run1)
      also have "\<dots> = (case merge_items (dropWhile is_DataTok r)
                (merged a ((rn @ [a']) @ map item_addr (takeWhile is_DataTok r)) h) of
           (out, h') \<Rightarrow> St (P @ (Enter, a) # (Exit, a) # flat out) h')"
        using IH_B [OF okr, of P "rn @ [a']" a] by (simp add: flat_append)
      finally show ?thesis using x by simp
    next
      case False
      have tw: "takeWhile is_DataTok (x # r) = []" "dropWhile is_DataTok (x # r) = x # r"
        using False by simp_all
      have nd: "\<not> (?i < length ?ev \<and> t_type (h ! snd (?ev ! ?i)) = ''data'')"
        using False okx by (cases x) (simp_all add: nth_app_run0)
      have le: "?i \<le> length ?ev" by simp
      have step: "merge_loop ?i (Some (length P)) (St ?ev h) =
        (if ?i \<noteq> Suc (Suc (length P))
         then merge_loop (Suc (Suc (Suc (length P)))) None (merge_at (length P) ?i (St ?ev h))
         else merge_loop (Suc ?i) None (St ?ev h))"
        by (rule merge_Some_nodata [OF le nd])
      have ok1: "list_all (item_ok (merged a rn h)) (x # r)"
        using Cons.prems by (simp only: list_all_item_ok_merged)
      have res: "merge_loop (Suc (Suc (Suc (length P)))) None
            (St (P @ (Enter, a) # (Exit, a) # flat (x # r)) (merged a rn h)) =
          (case merge_items (x # r) (merged a rn h) of
             (out, h') \<Rightarrow> St (P @ (Enter, a) # (Exit, a) # flat out) h')"
        using after_first [OF False ok1, of "P @ [(Enter, a), (Exit, a)]"] by simp
      show ?thesis
      proof (cases "rn = []")
        case True
        then show ?thesis using step res tw by (simp add: merged_def)
      next
        case nonempty: False
        then have R: "?R \<noteq> []" by (cases rn) auto
        have "merge_at (length P) ?i (St ?ev h) =
            St (P @ (Enter, a) # (Exit, a) # flat (x # r)) (merged a rn h)"
          using merge_at_run [OF R, of P "(Enter, a)" "(Exit, a)" "flat (x # r)" h] nonempty
          by (simp add: merged_def last_flat_run)
        then show ?thesis using step res tw R by simp
      qed
    qed
  qed
qed

lemma merge_refine_top:
  "list_all (item_ok h) items \<Longrightarrow>
   merge_loop 0 None (St (flat items) h) =
     (case merge_items items h of (out, h') \<Rightarrow> St (flat out) h')"
  using merge_refine [of h items "[]", THEN conjunct1] by simp

lemma data_addrs_simps [simp]:
  "data_addrs [] = []"
  "data_addrs (DataTok a # r) = a # data_addrs r"
  "data_addrs (LineEnd b # r) = data_addrs r"
  "data_addrs (Other e # r) = data_addrs r"
  by (simp_all add: data_addrs_def)

lemma data_addrs_append: "data_addrs (xs @ ys) = data_addrs xs @ data_addrs ys"
  by (simp add: data_addrs_def)

lemma data_addrs_subset: "set (data_addrs r) \<subseteq> item_addr ` set r"
  by (auto simp: data_addrs_def)

lemma item_ok_type_disjoint:
  "item_ok h x \<Longrightarrow> item_ok h (DataTok a) \<Longrightarrow> \<not> is_DataTok x \<Longrightarrow> item_addr x \<noteq> a"
  by (cases x) auto

lemma addr_notin_rest:
  assumes "list_all (item_ok h) r" "item_ok h (DataTok a)" "a \<notin> set (data_addrs r)"
  shows "a \<notin> item_addr ` set r"
proof
  assume "a \<in> item_addr ` set r"
  then obtain x where x: "x \<in> set r" "item_addr x = a" by auto
  with assms(1) have ok: "item_ok h x" by (simp add: list_all_iff)
  show False
  proof (cases "is_DataTok x")
    case True
    with x assms(3) show False by (auto simp: data_addrs_def)
  next
    case False
    with item_ok_type_disjoint [OF ok assms(2)] x show False by simp
  qed
qed

lemma well_formed_Cons:
  assumes "well_formed (x # r) h"
  shows "item_ok h x \<and> well_formed r h \<and> (is_DataTok x \<longrightarrow> item_addr x \<notin> item_addr ` set r)"
proof (cases x)
  case (DataTok a)
  with assms have ok: "item_ok h (DataTok a)" and r: "list_all (item_ok h) r"
    and d: "a \<notin> set (data_addrs r)" "distinct (data_addrs r)"
    by (simp_all add: well_formed_def)
  from addr_notin_rest [OF r ok d(1)] ok r d DataTok show ?thesis
    by (simp add: well_formed_def)
next
  case (LineEnd b)
  with assms show ?thesis by (simp add: well_formed_def)
next
  case (Other e)
  with assms show ?thesis by (simp add: well_formed_def)
qed

lemma well_formed_wf_rest: "well_formed items h \<Longrightarrow> wf_rest h items"
  by (induction items) (auto dest: well_formed_Cons)

lemma ws_items_DataTok_cases:
  assumes "ws_items slice (DataTok a # rest) h = (out, h2)"
  obtains
    (skip) out' where "\<not> (rest = [] \<or> is_LineEnd (hd rest))"
      "ws_items slice rest h = (out', h2)" "out = DataTok a # out'"
  | (keep) out' where "rest = [] \<or> is_LineEnd (hd rest)"
      "classify slice (rest = []) (h ! a) = Keep"
      "ws_items slice rest h = (out', h2)" "out = DataTok a # out'"
  | (reclassify) t out' where "rest = [] \<or> is_LineEnd (hd rest)"
      "classify slice (rest = []) (h ! a) = Reclassify t"
      "ws_items slice rest (h[a := t]) = (out', h2)"
      "out = Other (Enter, a) # Other (Exit, a) # out'"
  | (split) d t out' where "rest = [] \<or> is_LineEnd (hd rest)"
      "classify slice (rest = []) (h ! a) = Split d t"
      "ws_items slice rest (h[a := d] @ [t]) = (out', h2)"
      "out = DataTok a # Other (Enter, length h) # Other (Exit, length h) # out'"
proof (cases "rest = [] \<or> is_LineEnd (hd rest)")
  case False
  with assms skip show ?thesis by (simp split: prod.splits)
next
  case True
  show ?thesis
  proof (cases "classify slice (rest = []) (h ! a)")
    case Keep
    with assms True keep show ?thesis by (simp split: prod.splits)
  next
    case (Reclassify t)
    with assms True reclassify show ?thesis by (simp split: prod.splits)
  next
    case (Split d t)
    with assms True split show ?thesis by (simp split: prod.splits)
  qed
qed

declare ws_items.simps(2) [simp del]

lemma ws_items_frame:
  "ws_items slice items h = (out, h2) \<Longrightarrow>
     length h \<le> length h2 \<and> (\<forall>b. b < length h \<longrightarrow> b \<notin> set (data_addrs items) \<longrightarrow> h2 ! b = h ! b)"
proof (induction items arbitrary: h out h2)
  case Nil
  then show ?case by simp
next
  case (Cons x r)
  show ?case
  proof (cases x)
    case (Other e)
    with Cons.prems obtain out' where "ws_items slice r h = (out', h2)"
      by (auto split: prod.splits)
    from Cons.IH [OF this] Other show ?thesis by simp
  next
    case (LineEnd b)
    with Cons.prems obtain out' where "ws_items slice r h = (out', h2)"
      by (auto split: prod.splits)
    from Cons.IH [OF this] LineEnd show ?thesis by simp
  next
    case (DataTok a)
    from Cons.prems [unfolded DataTok] show ?thesis
    proof (cases rule: ws_items_DataTok_cases)
      case (skip out')
      from Cons.IH [OF skip(2)] DataTok show ?thesis by simp
    next
      case (keep out')
      from Cons.IH [OF keep(3)] DataTok show ?thesis by simp
    next
      case (reclassify t out')
      from Cons.IH [OF reclassify(3)] DataTok show ?thesis by simp
    next
      case (split d t out')
      from Cons.IH [OF split(3)] DataTok show ?thesis by (simp add: nth_append)
    qed
  qed
qed

lemma data_addrs_mem:
  "b \<in> set (data_addrs r) \<Longrightarrow> DataTok b \<in> set r"
proof -
  assume "b \<in> set (data_addrs r)"
  then obtain x where x: "x \<in> set r" "is_DataTok x" "item_addr x = b"
    by (auto simp: data_addrs_def)
  from x(2,3) have "x = DataTok b" by (cases x) simp_all
  with x(1) show ?thesis by simp
qed

lemma data_addrs_bound: "list_all (item_ok h) r \<Longrightarrow> b \<in> set (data_addrs r) \<Longrightarrow> b < length h"
proof -
  assume "list_all (item_ok h) r" "b \<in> set (data_addrs r)"
  with data_addrs_mem [of b r] have "item_ok h (DataTok b)" by (auto simp: list_all_iff)
  then show ?thesis by simp
qed

lemma well_formed_update:
  "well_formed r h \<Longrightarrow> a \<notin> item_addr ` set r \<Longrightarrow> well_formed r (h[a := t])"
  by (auto simp: well_formed_def list_all_iff intro!: item_ok_update)

lemma well_formed_append: "well_formed r h \<Longrightarrow> well_formed r (h @ [t])"
  by (auto simp: well_formed_def list_all_iff item_ok_append)

lemma ws_items_head:
  assumes a: "ws_items slice r h = (out, h2)"
  shows "(out = [] \<longleftrightarrow> r = [])
   \<and> (r \<noteq> [] \<longrightarrow> is_LineEnd (hd out) = is_LineEnd (hd r)
        \<and> (is_DataTok (hd out) \<longrightarrow> is_DataTok (hd r)))"
proof (cases r)
  case Nil
  with a show ?thesis by auto
next
  case (Cons x r')
  show ?thesis
  proof (cases x)
    case (DataTok a')
    from a [unfolded Cons DataTok] show ?thesis
      by (cases rule: ws_items_DataTok_cases) (simp_all add: Cons DataTok)
  next
    case (LineEnd b)
    with a Cons show ?thesis by (auto split: prod.splits)
  next
    case (Other e)
    with a Cons show ?thesis by (auto split: prod.splits)
  qed
qed

lemma no_adjacent_Cons_nondata: "\<not> is_DataTok x \<Longrightarrow> no_adjacent (x # r) = no_adjacent r"
  by (cases r) auto

lemma no_adjacent_Cons_data:
  "no_adjacent (DataTok a # r) = ((r = [] \<or> \<not> is_DataTok (hd r)) \<and> no_adjacent r)"
  by (cases r) auto

lemma ws_items_invariant:
  "well_formed items h \<Longrightarrow> ws_items slice items h = (out, h2) \<Longrightarrow>
     well_formed out h2 \<and> set (data_addrs out) \<subseteq> set (data_addrs items)
   \<and> settled slice h2 out \<and> (no_adjacent items \<longrightarrow> no_adjacent out)"
proof (induction items arbitrary: h out h2)
  case Nil
  then show ?case by (simp add: well_formed_def)
next
  case (Cons x r)
  from well_formed_Cons [OF Cons.prems(1)]
  have okx: "item_ok h x" and wfr: "well_formed r h"
    and dx: "is_DataTok x \<Longrightarrow> item_addr x \<notin> item_addr ` set r" by auto
  have nondata: ?case
    if nd: "\<not> is_DataTok x" and o: "ws_items slice r h = (out', h2)" "out = x # out'" for out'
  proof -
    from Cons.IH [OF wfr o(1)]
    have wf': "well_formed out' h2" and sub: "set (data_addrs out') \<subseteq> set (data_addrs r)"
      and st: "settled slice h2 out'" and na: "no_adjacent r \<longrightarrow> no_adjacent out'" by auto
    from ws_items_frame [OF o(1)]
    have len: "length h \<le> length h2"
      and fr: "\<And>b. b < length h \<Longrightarrow> b \<notin> set (data_addrs r) \<Longrightarrow> h2 ! b = h ! b" by auto
    have nin: "item_addr x \<notin> set (data_addrs r)"
    proof
      assume "item_addr x \<in> set (data_addrs r)"
      then have m: "DataTok (item_addr x) \<in> set r" by (rule data_addrs_mem)
      with wfr have "item_ok h (DataTok (item_addr x))" by (auto simp: well_formed_def list_all_iff)
      with item_ok_type_disjoint [OF okx this nd] show False by simp
    qed
    have lt: "item_addr x < length h" using okx by (cases x) auto
    have okx2: "item_ok h2 x"
      using okx nd fr [OF lt nin] len by (cases x) auto
    show ?thesis
      using wf' sub st na okx2 nd o(2)
      by (cases x) (auto simp: well_formed_def no_adjacent_Cons_nondata)
  qed
  show ?case
  proof (cases x)
    case (Other e)
    with Cons.prems(2) obtain out' where "ws_items slice r h = (out', h2)" "out = x # out'"
      by (auto split: prod.splits)
    with nondata Other show ?thesis by simp
  next
    case (LineEnd b)
    with Cons.prems(2) obtain out' where "ws_items slice r h = (out', h2)" "out = x # out'"
      by (auto split: prod.splits)
    with nondata LineEnd show ?thesis by simp
  next
    case (DataTok a)
    from okx DataTok have a: "a < length h" "t_type (h ! a) = ''data''" by auto
    from dx DataTok have ar: "a \<notin> item_addr ` set r" by simp
    then have ad: "a \<notin> set (data_addrs r)" using data_addrs_subset by blast
    have bound: "\<And>b. b \<in> set (data_addrs r) \<Longrightarrow> b < length h"
      using data_addrs_bound wfr by (auto simp: well_formed_def)
    then have fresh: "length h \<notin> set (data_addrs r)" by blast
    from Cons.prems(2) [unfolded DataTok] show ?thesis
    proof (cases rule: ws_items_DataTok_cases)
      case (skip out')
      from Cons.IH [OF wfr skip(2)]
      have wf': "well_formed out' h2" and sub: "set (data_addrs out') \<subseteq> set (data_addrs r)"
        and st: "settled slice h2 out'" and na: "no_adjacent r \<longrightarrow> no_adjacent out'" by auto
      from ws_items_frame [OF skip(2)] a ad
      have h2a: "a < length h2" "h2 ! a = h ! a" by auto
      from ws_items_head [OF skip(2)] skip(1)
      have hd: "out' \<noteq> []" "\<not> is_LineEnd (hd out')" "is_DataTok (hd out') \<longrightarrow> is_DataTok (hd r)"
        by auto
      show ?thesis
        using wf' sub st na h2a a ad hd skip(1,3) DataTok
        by (auto simp: well_formed_def no_adjacent_Cons_data)
    next
      case (keep out')
      from Cons.IH [OF wfr keep(3)]
      have wf': "well_formed out' h2" and sub: "set (data_addrs out') \<subseteq> set (data_addrs r)"
        and st: "settled slice h2 out'" and na: "no_adjacent r \<longrightarrow> no_adjacent out'" by auto
      from ws_items_frame [OF keep(3)] a ad
      have h2a: "a < length h2" "h2 ! a = h ! a" by auto
      from ws_items_head [OF keep(3)]
      have hd: "(out' = []) = (r = [])" "r \<noteq> [] \<Longrightarrow> is_DataTok (hd out') \<longrightarrow> is_DataTok (hd r)"
        by auto
      show ?thesis
        using wf' sub st na h2a a ad hd keep(2,4) DataTok
        by (auto simp: well_formed_def no_adjacent_Cons_data)
    next
      case (reclassify t out')
      from Cons.IH [OF well_formed_update [OF wfr ar] reclassify(3)]
      have wf': "well_formed out' h2" and sub: "set (data_addrs out') \<subseteq> set (data_addrs r)"
        and st: "settled slice h2 out'" and na: "no_adjacent r \<longrightarrow> no_adjacent out'" by auto
      from ws_items_frame [OF reclassify(3)] a ad
      have h2a: "a < length h2" "h2 ! a = t" by auto
      from classify_type(1) [OF reclassify(2)]
      have ty: "t_type t \<noteq> ''data''" "t_type t \<noteq> ''lineEnding''" by auto
      show ?thesis
        using wf' sub st na h2a ty reclassify(4) DataTok
        by (auto simp: well_formed_def no_adjacent_Cons_data no_adjacent_Cons_nondata)
    next
      case (split d t out')
      from Cons.IH [OF well_formed_append [OF well_formed_update [OF wfr ar]] split(3)]
      have wf': "well_formed out' h2" and sub: "set (data_addrs out') \<subseteq> set (data_addrs r)"
        and st: "settled slice h2 out'" and na: "no_adjacent r \<longrightarrow> no_adjacent out'" by auto
      from ws_items_frame [OF split(3)] a ad fresh
      have h2a: "a < length h2" "h2 ! a = d" "length h < length h2" "h2 ! length h = t"
        by (auto simp: nth_append)
      from classify_type(2) [OF split(2)] a
      have ty: "t_type t \<noteq> ''data''" "t_type t \<noteq> ''lineEnding''" "t_type d = ''data''" by auto
      show ?thesis
        using wf' sub st na h2a ty ad split(4) DataTok
        by (auto simp: well_formed_def no_adjacent_Cons_data no_adjacent_Cons_nondata)
    qed
  qed
qed

lemma settled_fixed: "settled slice h items \<Longrightarrow> ws_items slice items h = (items, h)"
  by (induction slice h items rule: settled.induct) (auto simp: ws_items.simps(2))

lemma merged_length [simp]: "length (merged a rn h) = length h"
  by (simp add: merged_def)

lemma merged_type [simp]: "t_type (merged a rn h ! b) = t_type (h ! b)"
  by (simp add: merged_def type_update_end)

lemma well_formed_merged: "well_formed r (merged a rn h) = well_formed r h"
  by (simp add: well_formed_def list_all_item_ok_merged)

lemma no_run:
  "r = [] \<or> \<not> is_DataTok (hd r) \<Longrightarrow> takeWhile is_DataTok r = [] \<and> dropWhile is_DataTok r = r"
  by (cases r) auto

lemma merge_fixed: "no_adjacent items \<Longrightarrow> merge_items items h = (items, h)"
proof (induction items arbitrary: h)
  case Nil
  then show ?case by simp
next
  case (Cons x r)
  show ?case
  proof (cases x)
    case (DataTok a)
    with Cons.prems have nr: "r = [] \<or> \<not> is_DataTok (hd r)" and na: "no_adjacent r"
      by (simp_all add: no_adjacent_Cons_data)
    from no_run [OF nr] Cons.IH [OF na] DataTok show ?thesis
      by (simp add: merge_items_DataTok merged_def)
  next
    case (LineEnd b)
    with Cons show ?thesis by (simp add: no_adjacent_Cons_nondata)
  next
    case (Other e)
    with Cons show ?thesis by (simp add: no_adjacent_Cons_nondata)
  qed
qed

lemma well_formed_dropWhile: "well_formed r h \<Longrightarrow> well_formed (dropWhile P r) h"
proof -
  assume wf: "well_formed r h"
  have r: "r = takeWhile P r @ dropWhile P r" by simp
  have "set (dropWhile P r) \<subseteq> set r" by (rule set_dropWhileD [THEN subsetI])
  then have 1: "list_all (item_ok h) (dropWhile P r)"
    using wf by (auto simp: well_formed_def list_all_iff)
  have "distinct (data_addrs (takeWhile P r) @ data_addrs (dropWhile P r))"
    using wf r data_addrs_append [of "takeWhile P r" "dropWhile P r"] by (simp add: well_formed_def)
  then have 2: "distinct (data_addrs (dropWhile P r))" by simp
  from 1 2 show ?thesis by (simp add: well_formed_def)
qed

lemma data_addrs_dropWhile: "set (data_addrs (dropWhile P r)) \<subseteq> set (data_addrs r)"
proof -
  have "data_addrs r = data_addrs (takeWhile P r) @ data_addrs (dropWhile P r)"
    using data_addrs_append [of "takeWhile P r" "dropWhile P r"] by simp
  then show ?thesis by auto
qed

lemma merge_items_invariant:
  "well_formed items h \<Longrightarrow> merge_items items h = (out, h1) \<Longrightarrow>
     well_formed out h1 \<and> no_adjacent out \<and> length h1 = length h
   \<and> (\<forall>b. t_type (h1 ! b) = t_type (h ! b))
   \<and> set (data_addrs out) \<subseteq> set (data_addrs items)
   \<and> (out = [] \<longleftrightarrow> items = []) \<and> (items \<noteq> [] \<longrightarrow> hd out = hd items)"
proof (induction items h arbitrary: out h1 rule: merge_items.induct)
  case (1 h)
  then show ?case by (simp add: well_formed_def)
next
  case (2 a rest h)
  let ?rn = "map item_addr (takeWhile is_DataTok rest)"
  let ?h' = "merged a ?rn h"
  let ?rest' = "dropWhile is_DataTok rest"
  from 2(3) obtain out' where o: "merge_items ?rest' ?h' = (out', h1)" "out = DataTok a # out'"
    by (auto simp: merge_items_DataTok split: prod.splits)
  have h': "?h' = (if takeWhile is_DataTok rest = [] then h
      else h[a := (h ! a)\<lparr>t_end := t_end (h ! item_addr (last (takeWhile is_DataTok rest)))\<rparr>])"
    by (simp add: merged_def last_map)
  from well_formed_Cons [OF 2(2)] have oka: "item_ok h (DataTok a)" and wfr: "well_formed rest h"
    and ar: "a \<notin> item_addr ` set rest" by auto
  have wf': "well_formed ?rest' ?h'"
    using well_formed_dropWhile [OF wfr] by (simp only: well_formed_merged)
  from 2(1) [OF refl h' [symmetric, THEN sym] wf' o(1)]
  have IH: "well_formed out' h1" "no_adjacent out'" "length h1 = length h"
    "\<And>b. t_type (h1 ! b) = t_type (h ! b)"
    "set (data_addrs out') \<subseteq> set (data_addrs ?rest')"
    "(out' = []) = (?rest' = [])" "?rest' \<noteq> [] \<Longrightarrow> hd out' = hd ?rest'"
    by simp_all
  have nd: "?rest' \<noteq> [] \<Longrightarrow> \<not> is_DataTok (hd ?rest')"
    using hd_dropWhile [of is_DataTok rest] by simp
  have an: "a \<notin> set (data_addrs out')"
    using IH(5) data_addrs_dropWhile [of is_DataTok rest] data_addrs_subset [of rest] ar by blast
  have wfo: "well_formed out h1"
    using IH(1,3,4) oka an o(2) by (simp add: well_formed_def)
  have nao: "no_adjacent out"
  proof (cases "out' = []")
    case True
    with o(2) show ?thesis by simp
  next
    case False
    with IH(6) have ne: "?rest' \<noteq> []" by blast
    from IH(7) [OF ne] nd [OF ne] have "\<not> is_DataTok (hd out')" by simp
    with IH(2) o(2) show ?thesis by (simp add: no_adjacent_Cons_data)
  qed
  have sub: "set (data_addrs out) \<subseteq> set (data_addrs (DataTok a # rest))"
    using IH(5) data_addrs_dropWhile [of is_DataTok rest] o(2) by auto
  show ?case
    using wfo nao sub IH(3,4) o(2) by simp
next
  case (3 v rest h)
  from 3(3) obtain out' where o: "merge_items rest h = (out', h1)" "out = LineEnd v # out'"
    by (auto split: prod.splits)
  from well_formed_Cons [OF 3(2)] have ok: "item_ok h (LineEnd v)" and wfr: "well_formed rest h"
    by auto
  from 3(1) [OF wfr o(1)] ok o(2) show ?case
    by (auto simp: well_formed_def no_adjacent_Cons_nondata)
next
  case (4 v rest h)
  from 4(3) obtain out' where o: "merge_items rest h = (out', h1)" "out = Other v # out'"
    by (auto split: prod.splits)
  from well_formed_Cons [OF 4(2)] have ok: "item_ok h (Other v)" and wfr: "well_formed rest h"
    by auto
  from 4(1) [OF wfr o(1)] ok o(2) show ?case
    by (auto simp: well_formed_def no_adjacent_Cons_nondata)
qed

lemma resolve_refine:
  assumes "well_formed items h"
  shows "resolveJsxFlow slice (St (flat items) h) =
     (case resolve_items slice items h of (out, h2) \<Rightarrow> St (flat out) h2)"
proof -
  obtain o1 h1 where m: "merge_items items h = (o1, h1)" by (cases "merge_items items h")
  from merge_items_invariant [OF assms m] have wf1: "well_formed o1 h1" by simp
  have "merge_loop 0 None (St (flat items) h) = St (flat o1) h1"
    using merge_refine_top [of h items] assms m by (simp add: well_formed_def)
  then show ?thesis
    using ws_refine_top [OF well_formed_wf_rest [OF wf1], of slice] m
    by (simp add: resolveJsxFlow_def resolve_items_def)
qed

lemma resolve_items_fixed:
  assumes "well_formed items h" "resolve_items slice items h = (out, h2)"
  shows "well_formed out h2 \<and> merge_items out h2 = (out, h2) \<and> ws_items slice out h2 = (out, h2)"
proof -
  obtain o1 h1 where m: "merge_items items h = (o1, h1)" by (cases "merge_items items h")
  from merge_items_invariant [OF assms(1) m] have wf1: "well_formed o1 h1" and na: "no_adjacent o1"
    by simp_all
  from assms(2) m have w: "ws_items slice o1 h1 = (out, h2)" by (simp add: resolve_items_def)
  from ws_items_invariant [OF wf1 w] na
  have "well_formed out h2" "settled slice h2 out" "no_adjacent out" by simp_all
  then show ?thesis by (simp add: merge_fixed settled_fixed)
qed

lemma resolve_idempotent:
  assumes "well_formed items h"
  shows "resolveJsxFlow slice (resolveJsxFlow slice (St (flat items) h)) =
     resolveJsxFlow slice (St (flat items) h)"
proof -
  obtain out h2 where r: "resolve_items slice items h = (out, h2)"
    by (cases "resolve_items slice items h")
  from resolve_items_fixed [OF assms r]
  have wf: "well_formed out h2" and fx: "resolve_items slice out h2 = (out, h2)"
    by (simp_all add: resolve_items_def)
  show ?thesis
    using resolve_refine [OF assms, of slice] resolve_refine [OF wf, of slice] r fx by simp
qed

lemma strip_spaces_eq:
  "n \<le> length chunk \<Longrightarrow>
   strip_spaces chunk n sz =
     (n - length (takeWhile (\<lambda>c. c = space) (rev (take n chunk))),
      sz + length (takeWhile (\<lambda>c. c = space) (rev (take n chunk))))"
proof (induction n arbitrary: sz)
  case 0
  then show ?case by simp
next
  case (Suc n)
  then have n: "n < length chunk" by simp
  have t: "rev (take (Suc n) chunk) = chunk ! n # rev (take n chunk)"
    using n by (simp add: take_Suc_conv_app_nth)
  have le: "length (takeWhile (\<lambda>c. c = space) (rev (take n chunk))) \<le> n"
    using length_takeWhile_le [of "\<lambda>c. c = space" "rev (take n chunk)"] n by simp
  show ?case using Suc.IH [of "Suc sz"] n le by (simp add: t)
qed

lemma trailing_blank_snoc:
  "trailing_blank (xs @ [c]) =
     (if \<forall>x \<in> set (atoms_of c). blank x then rev (atoms_of c) @ trailing_blank xs
      else takeWhile blank (rev (atoms_of c)))"
  by (simp add: trailing_blank_def atoms_def takeWhile_append)

lemma takeWhile_Unit:
  "takeWhile blank (map Unit cs) = map Unit (takeWhile (\<lambda>c. c = space) cs)"
  by (induction cs) auto

lemma length_takeWhile_all: "(length (takeWhile P xs) = length xs) \<longleftrightarrow> (\<forall>x \<in> set xs. P x)"
  by (induction xs) auto

lemma all_space_iff:
  "(length (takeWhile (\<lambda>c. c = space) (rev cs)) = length cs) \<longleftrightarrow> (\<forall>c \<in> set cs. c = space)"
  using length_takeWhile_all [of "\<lambda>c. c = space" "rev cs"] by simp

lemma trailing_blank_snoc_Str:
  "trailing_blank (xs @ [Str cs]) =
     (if \<forall>c \<in> set cs. c = space then rev (map Unit cs) @ trailing_blank xs
      else map Unit (takeWhile (\<lambda>c. c = space) (rev cs)))"
proof -
  have a: "(\<forall>x \<in> set (atoms_of (Str cs)). blank x) \<longleftrightarrow> (\<forall>c \<in> set cs. c = space)"
    by auto
  have b: "takeWhile blank (rev (map Unit cs)) = map Unit (takeWhile (\<lambda>c. c = space) (rev cs))"
    by (simp only: rev_map takeWhile_Unit)
  show ?thesis
    unfolding trailing_blank_snoc a using b by simp
qed

lemma spec_snoc_Num:
  "spec_size (xs @ [Num c]) =
     (if c = horizontalTab then Suc (spec_size xs) else if c = virtualSpace then spec_size xs else 0)"
  "spec_tabs (xs @ [Num c]) =
     (if c = horizontalTab then True else if c = virtualSpace then spec_tabs xs else False)"
  by (auto simp: spec_size_def spec_tabs_def trailing_blank_snoc codes_defs)

lemma spec_snoc_Str_all:
  assumes "\<forall>c \<in> set cs. c = space"
  shows "spec_size (xs @ [Str cs]) = length cs + spec_size xs"
    and "spec_tabs (xs @ [Str cs]) = spec_tabs xs"
proof -
  have tb: "trailing_blank (xs @ [Str cs]) = rev (map Unit cs) @ trailing_blank xs"
    using assms by (auto simp: trailing_blank_snoc_Str)
  show "spec_size (xs @ [Str cs]) = length cs + spec_size xs"
    by (simp add: spec_size_def tb filter_map comp_def)
  show "spec_tabs (xs @ [Str cs]) = spec_tabs xs"
    by (auto simp: spec_tabs_def tb)
qed

lemma spec_snoc_Str_some:
  assumes "\<not> (\<forall>c \<in> set cs. c = space)"
  shows "spec_size (xs @ [Str cs]) = length (takeWhile (\<lambda>c. c = space) (rev cs))"
    and "spec_tabs (xs @ [Str cs]) = False"
proof -
  have tb: "trailing_blank (xs @ [Str cs]) = map Unit (takeWhile (\<lambda>c. c = space) (rev cs))"
    using assms by (auto simp: trailing_blank_snoc_Str)
  show "spec_size (xs @ [Str cs]) = length (takeWhile (\<lambda>c. c = space) (rev cs))"
    by (simp add: spec_size_def tb filter_map comp_def)
  show "spec_tabs (xs @ [Str cs]) = False"
    by (auto simp: spec_tabs_def tb)
qed

lemma scan_chunks_spec:
  "n \<le> length chunks \<Longrightarrow>
   fst (snd (snd (scan_chunks chunks n bi sz tabs))) = sz + spec_size (take n chunks)
   \<and> snd (snd (snd (scan_chunks chunks n bi sz tabs))) = (tabs \<or> spec_tabs (take n chunks))"
proof (induction n arbitrary: bi sz tabs)
  case 0
  then show ?case by (simp add: spec_size_def spec_tabs_def trailing_blank_def atoms_def)
next
  case (Suc n)
  then have n: "n < length chunks" and n': "n \<le> length chunks" by simp_all
  have tk: "take (Suc n) chunks = take n chunks @ [chunks ! n]"
    using n by (simp add: take_Suc_conv_app_nth)
  note IH = Suc.IH [OF n']
  show ?case
  proof (cases "chunks ! n")
    case (Num c)
    have st: "scan_chunks chunks (Suc n) bi sz tabs =
        (if c = horizontalTab then scan_chunks chunks n bi (Suc sz) True
         else if c = virtualSpace then scan_chunks chunks n bi sz tabs
         else (int n + 1, bi, sz, tabs))"
      by (simp add: Num)
    show ?thesis
      unfolding tk Num st spec_snoc_Num
      using IH [of bi "Suc sz" True] IH [of bi sz tabs] by simp
  next
    case (Str cs)
    let ?k = "length (takeWhile (\<lambda>c. c = space) (rev cs))"
    have ss: "strip_spaces cs (length cs) sz = (length cs - ?k, sz + ?k)"
      using strip_spaces_eq [of "length cs" cs sz] by simp
    have kle: "?k \<le> length cs"
      using length_takeWhile_le [of "\<lambda>c. c = space" "rev cs"] by simp
    have st: "scan_chunks chunks (Suc n) bi sz tabs =
        (if length cs - ?k \<noteq> 0 then (int n, int (length cs - ?k), sz + ?k, tabs)
         else scan_chunks chunks n (-1) (sz + ?k) tabs)"
      by (simp add: Str ss)
    show ?thesis
    proof (cases "\<forall>c \<in> set cs. c = space")
      case True
      then have k: "?k = length cs" using all_space_iff [of cs] by simp
      show ?thesis
        unfolding tk Str st spec_snoc_Str_all [OF True] k
        using IH [of "-1" "sz + length cs" tabs] by simp
    next
      case False
      then have k: "?k \<noteq> length cs" using all_space_iff [of cs] by simp
      with kle have pos: "length cs - ?k \<noteq> 0" by simp
      show ?thesis
        unfolding tk Str st spec_snoc_Str_some [OF False]
        using pos by simp
    qed
  qed
qed

lemma trailing_spec:
  "fst (snd (snd (trailing slice data))) = spec_size (slice data)
   \<and> snd (snd (snd (trailing slice data))) = spec_tabs (slice data)"
  using scan_chunks_spec [of "length (slice data)" "slice data" "-1" 0 False]
  by (simp add: trailing_def Let_def)

lemma merge_items_append:
  "pre = [] \<or> \<not> is_DataTok (last pre) \<Longrightarrow>
   merge_items (pre @ X) h =
     (case merge_items pre h of (o1, h1) \<Rightarrow>
        case merge_items X h1 of (o2, h2) \<Rightarrow> (o1 @ o2, h2))"
proof (induction pre h rule: merge_items.induct)
  case (1 h)
  then show ?case by (simp split: prod.splits)
next
  case (2 a rest h)
  from 2(2) have ne: "rest \<noteq> []" and lr: "\<not> is_DataTok (last rest)" by (auto split: if_splits)
  then have ex: "last rest \<in> set rest" by simp
  have tw: "takeWhile is_DataTok (rest @ X) = takeWhile is_DataTok rest"
    using takeWhile_append1 [where P = is_DataTok, OF ex lr] .
  have dw: "dropWhile is_DataTok (rest @ X) = dropWhile is_DataTok rest @ X"
    using dropWhile_append1 [where P = is_DataTok, OF ex lr] .
  have dne: "dropWhile is_DataTok rest \<noteq> []"
    using ex lr by (auto simp: dropWhile_eq_Nil_conv)
  have "last (takeWhile is_DataTok rest @ dropWhile is_DataTok rest) = last (dropWhile is_DataTok rest)"
    using dne by (rule last_appendR)
  then have dl: "\<not> is_DataTok (last (dropWhile is_DataTok rest))" using lr by simp
  let ?h' = "merged a (map item_addr (takeWhile is_DataTok rest)) h"
  have h': "?h' = (if takeWhile is_DataTok rest = [] then h
      else h[a := (h ! a)\<lparr>t_end := t_end (h ! item_addr (last (takeWhile is_DataTok rest)))\<rparr>])"
    by (simp add: merged_def last_map)
  have IH: "merge_items (dropWhile is_DataTok rest @ X) ?h' =
     (case merge_items (dropWhile is_DataTok rest) ?h' of (o1, h1) \<Rightarrow>
        case merge_items X h1 of (o2, h2) \<Rightarrow> (o1 @ o2, h2))"
    using 2(1) [OF refl h' [symmetric, THEN sym]] dl by simp
  show ?case
    by (simp add: merge_items_DataTok tw dw IH split: prod.splits)
next
  case (3 v rest h)
  then show ?case by (cases "rest = []") (auto split: prod.splits)
next
  case (4 v rest h)
  then show ?case by (cases "rest = []") (auto split: prod.splits)
qed

lemma merge_items_frame:
  "merge_items items h = (out, h1) \<Longrightarrow> b \<notin> set (data_addrs items) \<Longrightarrow> h1 ! b = h ! b"
proof (induction items h arbitrary: out h1 rule: merge_items.induct)
  case (1 h)
  then show ?case by simp
next
  case (2 a rest h)
  let ?h' = "merged a (map item_addr (takeWhile is_DataTok rest)) h"
  have h': "?h' = (if takeWhile is_DataTok rest = [] then h
      else h[a := (h ! a)\<lparr>t_end := t_end (h ! item_addr (last (takeWhile is_DataTok rest)))\<rparr>])"
    by (simp add: merged_def last_map)
  from 2(2) obtain out' where o: "merge_items (dropWhile is_DataTok rest) ?h' = (out', h1)"
    by (auto simp: merge_items_DataTok split: prod.splits)
  from 2(3) have ba: "b \<noteq> a" and br: "b \<notin> set (data_addrs (dropWhile is_DataTok rest))"
    using data_addrs_dropWhile [of is_DataTok rest] by auto
  from 2(1) [OF refl h' [symmetric, THEN sym] o br] have "h1 ! b = ?h' ! b" .
  also have "\<dots> = h ! b" using ba by (simp add: merged_def)
  finally show ?case .
next
  case (3 v rest h)
  then show ?case by (auto split: prod.splits)
next
  case (4 v rest h)
  then show ?case by (auto split: prod.splits)
qed

lemma run_then_post:
  "post = [] \<or> \<not> is_DataTok (hd post) \<Longrightarrow>
   takeWhile is_DataTok (map DataTok rn @ post) = map DataTok rn
   \<and> dropWhile is_DataTok (map DataTok rn @ post) = post"
  by (induction rn) (cases post; simp)+

lemma merge_items_run:
  assumes wf: "well_formed (pre @ DataTok a # map DataTok rn @ post) h"
    and rn: "rn \<noteq> []"
    and pre: "pre = [] \<or> \<not> is_DataTok (last pre)"
    and post: "post = [] \<or> \<not> is_DataTok (hd post)"
  shows "fst (merge_items (pre @ DataTok a # map DataTok rn @ post) h) =
           fst (merge_items pre h) @
           DataTok a # fst (merge_items post (merged a rn (snd (merge_items pre h))))"
    and "snd (merge_items (pre @ DataTok a # map DataTok rn @ post) h) ! a =
           (h ! a)\<lparr>t_end := t_end (h ! last rn)\<rparr>"
proof -
  obtain o1 h1 where m1: "merge_items pre h = (o1, h1)" by (cases "merge_items pre h")
  obtain o2 h2 where m2: "merge_items post (merged a rn h1) = (o2, h2)"
    by (cases "merge_items post (merged a rn h1)")
  have tw: "takeWhile is_DataTok (map DataTok rn @ post) = map DataTok rn"
    and dw: "dropWhile is_DataTok (map DataTok rn @ post) = post"
    using run_then_post [OF post] by simp_all
  have mid: "merge_items (DataTok a # map DataTok rn @ post) h1 = (DataTok a # o2, h2)"
    using m2 by (simp add: merge_items_DataTok tw dw comp_def)
  have all: "merge_items (pre @ DataTok a # map DataTok rn @ post) h = (o1 @ DataTok a # o2, h2)"
    using merge_items_append [OF pre, of "DataTok a # map DataTok rn @ post" h] m1 mid by simp
  show "fst (merge_items (pre @ DataTok a # map DataTok rn @ post) h) =
           fst (merge_items pre h) @
           DataTok a # fst (merge_items post (merged a rn (snd (merge_items pre h))))"
    using all m1 m2 by simp
  from wf have d: "distinct (data_addrs pre @ a # rn @ data_addrs post)"
    by (simp add: well_formed_def data_addrs_append data_addrs_def comp_def filter_map)
  from wf have a: "a < length h" by (simp add: well_formed_def)
  from d have apre: "a \<notin> set (data_addrs pre)" and apost: "a \<notin> set (data_addrs post)"
    and lpre: "last rn \<notin> set (data_addrs pre)"
    using rn last_in_set [OF rn] by auto
  from wf have wfpre: "well_formed pre h" by (simp add: well_formed_def data_addrs_append)
  from merge_items_invariant [OF wfpre m1] have len: "length h1 = length h" by simp
  have "h2 ! a = merged a rn h1 ! a" by (rule merge_items_frame [OF m2 apost])
  also have "\<dots> = (h1 ! a)\<lparr>t_end := t_end (h1 ! last rn)\<rparr>"
    using rn a len by (simp add: merged_def)
  also have "\<dots> = (h ! a)\<lparr>t_end := t_end (h ! last rn)\<rparr>"
    by (simp add: merge_items_frame [OF m1 apre] merge_items_frame [OF m1 lpre])
  finally show "snd (merge_items (pre @ DataTok a # map DataTok rn @ post) h) ! a =
           (h ! a)\<lparr>t_end := t_end (h ! last rn)\<rparr>"
    using all by simp
qed

lemma ws_items_append:
  "pre = [] \<or> \<not> is_DataTok (last pre) \<Longrightarrow>
   ws_items slice (pre @ X) h =
     (case ws_items slice pre h of (o1, h1) \<Rightarrow>
        case ws_items slice X h1 of (o2, h2) \<Rightarrow> (o1 @ o2, h2))"
proof (induction pre arbitrary: h)
  case Nil
  then show ?case by (simp split: prod.splits)
next
  case (Cons x r)
  show ?case
  proof (cases "r = []")
    case True
    with Cons.prems show ?thesis by (cases x) (auto split: prod.splits)
  next
    case False
    with Cons.prems have "r = [] \<or> \<not> is_DataTok (last r)" by simp
    note IH = Cons.IH [OF this]
    show ?thesis
    proof (cases x)
      case (DataTok a)
      show ?thesis
        using False by (simp add: DataTok ws_items.simps(2) IH split: prod.splits action.splits)
    next
      case (LineEnd b)
      then show ?thesis by (simp add: IH split: prod.splits)
    next
      case (Other e)
      then show ?thesis by (simp add: IH split: prod.splits)
    qed
  qed
qed

lemma ws_items_at:
  assumes wf: "well_formed (pre @ DataTok a # post) h"
    and pre: "pre = [] \<or> \<not> is_DataTok (last pre)"
    and post: "post = [] \<or> is_LineEnd (hd post)"
    and w1: "ws_items slice pre h = (o1, h1)"
  shows "h1 ! a = h ! a"
    and "ws_items slice (pre @ DataTok a # post) h =
      (case classify slice (post = []) (h ! a) of
         Keep \<Rightarrow>
           (case ws_items slice post h1 of (o2, h2) \<Rightarrow> (o1 @ DataTok a # o2, h2))
       | Reclassify token \<Rightarrow>
           (case ws_items slice post (h1[a := token]) of
              (o2, h2) \<Rightarrow> (o1 @ Other (Enter, a) # Other (Exit, a) # o2, h2))
       | Split data' token \<Rightarrow>
           (case ws_items slice post (h1[a := data'] @ [token]) of
              (o2, h2) \<Rightarrow>
                (o1 @ DataTok a # Other (Enter, length h1) # Other (Exit, length h1) # o2, h2)))"
proof -
  from wf have d: "a \<notin> set (data_addrs pre)" and a: "a < length h"
    by (simp_all add: well_formed_def data_addrs_append)
  from ws_items_frame [OF w1] a d show eq: "h1 ! a = h ! a" by simp
  show "ws_items slice (pre @ DataTok a # post) h =
      (case classify slice (post = []) (h ! a) of
         Keep \<Rightarrow>
           (case ws_items slice post h1 of (o2, h2) \<Rightarrow> (o1 @ DataTok a # o2, h2))
       | Reclassify token \<Rightarrow>
           (case ws_items slice post (h1[a := token]) of
              (o2, h2) \<Rightarrow> (o1 @ Other (Enter, a) # Other (Exit, a) # o2, h2))
       | Split data' token \<Rightarrow>
           (case ws_items slice post (h1[a := data'] @ [token]) of
              (o2, h2) \<Rightarrow>
                (o1 @ DataTok a # Other (Enter, length h1) # Other (Exit, length h1) # o2, h2)))"
    using ws_items_append [OF pre, of slice "DataTok a # post" h] w1 post
    by (simp add: ws_items.simps(2) eq split: prod.splits action.splits)
qed

subsection \<open>The resolver: the claims\<close>

lemma classify_spec:
  "classify slice at_end d =
     (if spec_size (slice d) = 0 then Keep
      else if p_offset (t_start d) = p_offset (t_end d) - int (spec_size (slice d))
        then Reclassify (suffix_token d at_end (trailing slice d))
        else Split (d\<lparr>t_end := t_start (suffix_token d at_end (trailing slice d))\<rparr>)
               (suffix_token d at_end (trailing slice d)))"
  using trailing_spec [of slice d]
  by (cases "trailing slice d") (auto simp: classify_def suffix_token_def Let_def)

lemma suffix_token_spec:
  "t_type (suffix_token d at_end (trailing slice d)) =
     (if at_end \<or> spec_tabs (slice d) \<or> spec_size (slice d) < hardBreakPrefixSizeMin
      then ''lineSuffix'' else ''hardBreakTrailing'')
   \<and> t_end (suffix_token d at_end (trailing slice d)) = t_end d
   \<and> p_offset (t_start (suffix_token d at_end (trailing slice d))) =
       p_offset (t_end d) - int (spec_size (slice d))
   \<and> p_column (t_start (suffix_token d at_end (trailing slice d))) =
       p_column (t_end d) - int (spec_size (slice d))
   \<and> p_line (t_start (suffix_token d at_end (trailing slice d))) = p_line (t_end d)"
  using trailing_spec [of slice d]
  by (cases "trailing slice d") (auto simp: suffix_token_def)

text \<open>
  Claim C4. On an event list of the tokenizer, the second loop of the resolver is the
  whitespace pass of the specification: it looks at every data token that is followed by a
  line ending or by the end of the events, and at no other. For such a token (not preceded
  by another data token, as after the merge pass) the backward scan counts the trailing
  spaces and tabs of its chunks; a virtual space counts nothing and any other code ends the
  scan. When the count is not zero, the run is a line suffix if the token is followed by
  the end of the events, or the run has a tab, or the count is below 2, and a hard break
  otherwise; when the run covers the whole token (the offsets of its start and of the
  run's start agree), the token is reclassified in place, and otherwise a new token is
  inserted after the data token, whose end moves to the start of the run.
\<close>

theorem C4_trailing_whitespace:
  "well_formed items h \<Longrightarrow>
     whitespace_loop slice 1 \<lparr>r_events = flat items, r_tokens = h\<rparr> =
       \<lparr>r_events = flat (fst (ws_items slice items h)), r_tokens = snd (ws_items slice items h)\<rparr>
   \<and> (\<forall>pre a post.
         items = pre @ DataTok a # post \<and> (pre = [] \<or> \<not> is_DataTok (last pre))
         \<and> (post = [] \<or> is_LineEnd (hd post)) \<longrightarrow>
         ws_items slice items h =
           (case ws_items slice pre h of (o1, h1) \<Rightarrow>
              case classify slice (post = []) (h ! a) of
                Keep \<Rightarrow>
                  (case ws_items slice post h1 of (o2, h2) \<Rightarrow> (o1 @ DataTok a # o2, h2))
              | Reclassify token \<Rightarrow>
                  (case ws_items slice post (h1[a := token]) of
                     (o2, h2) \<Rightarrow> (o1 @ Other (Enter, a) # Other (Exit, a) # o2, h2))
              | Split data' token \<Rightarrow>
                  (case ws_items slice post (h1[a := data'] @ [token]) of
                     (o2, h2) \<Rightarrow>
                       (o1 @ DataTok a # Other (Enter, length h1) # Other (Exit, length h1) # o2,
                        h2))))
   \<and> (\<forall>d at_end.
         classify slice at_end d =
           (if spec_size (slice d) = 0 then Keep
            else if p_offset (t_start d) = p_offset (t_end d) - int (spec_size (slice d))
              then Reclassify (suffix_token d at_end (trailing slice d))
              else Split (d\<lparr>t_end := t_start (suffix_token d at_end (trailing slice d))\<rparr>)
                     (suffix_token d at_end (trailing slice d)))
         \<and> t_type (suffix_token d at_end (trailing slice d)) =
             (if at_end \<or> spec_tabs (slice d) \<or> spec_size (slice d) < hardBreakPrefixSizeMin
              then ''lineSuffix'' else ''hardBreakTrailing'')
         \<and> t_end (suffix_token d at_end (trailing slice d)) = t_end d
         \<and> p_offset (t_start (suffix_token d at_end (trailing slice d))) =
             p_offset (t_end d) - int (spec_size (slice d)))
   \<and> hardBreakPrefixSizeMin = 2"
proof (intro conjI allI impI)
  assume wf: "well_formed items h"
  show "whitespace_loop slice 1 \<lparr>r_events = flat items, r_tokens = h\<rparr> =
       \<lparr>r_events = flat (fst (ws_items slice items h)), r_tokens = snd (ws_items slice items h)\<rparr>"
    using ws_refine_top [OF well_formed_wf_rest [OF wf], of slice]
    by (simp split: prod.splits)
  show "hardBreakPrefixSizeMin = 2" by (simp add: hardBreakPrefixSizeMin_def)
  fix d at_end
  show "classify slice at_end d =
           (if spec_size (slice d) = 0 then Keep
            else if p_offset (t_start d) = p_offset (t_end d) - int (spec_size (slice d))
              then Reclassify (suffix_token d at_end (trailing slice d))
              else Split (d\<lparr>t_end := t_start (suffix_token d at_end (trailing slice d))\<rparr>)
                     (suffix_token d at_end (trailing slice d)))"
    by (rule classify_spec)
  show "t_type (suffix_token d at_end (trailing slice d)) =
             (if at_end \<or> spec_tabs (slice d) \<or> spec_size (slice d) < hardBreakPrefixSizeMin
              then ''lineSuffix'' else ''hardBreakTrailing'')"
    using suffix_token_spec [of d at_end slice] by blast
  show "t_end (suffix_token d at_end (trailing slice d)) = t_end d"
    using suffix_token_spec [of d at_end slice] by blast
  show "p_offset (t_start (suffix_token d at_end (trailing slice d))) =
             p_offset (t_end d) - int (spec_size (slice d))"
    using suffix_token_spec [of d at_end slice] by blast
next
  fix pre a post
  assume wf: "well_formed items h"
    and a: "items = pre @ DataTok a # post \<and> (pre = [] \<or> \<not> is_DataTok (last pre))
         \<and> (post = [] \<or> is_LineEnd (hd post))"
  obtain o1 h1 where w1: "ws_items slice pre h = (o1, h1)" by (cases "ws_items slice pre h")
  from a wf have wf': "well_formed (pre @ DataTok a # post) h" by simp
  from a have pre: "pre = [] \<or> \<not> is_DataTok (last pre)"
    and post: "post = [] \<or> is_LineEnd (hd post)" by simp_all
  show "ws_items slice items h =
           (case ws_items slice pre h of (o1, h1) \<Rightarrow>
              case classify slice (post = []) (h ! a) of
                Keep \<Rightarrow>
                  (case ws_items slice post h1 of (o2, h2) \<Rightarrow> (o1 @ DataTok a # o2, h2))
              | Reclassify token \<Rightarrow>
                  (case ws_items slice post (h1[a := token]) of
                     (o2, h2) \<Rightarrow> (o1 @ Other (Enter, a) # Other (Exit, a) # o2, h2))
              | Split data' token \<Rightarrow>
                  (case ws_items slice post (h1[a := data'] @ [token]) of
                     (o2, h2) \<Rightarrow>
                       (o1 @ DataTok a # Other (Enter, length h1) # Other (Exit, length h1) # o2,
                        h2)))"
    using ws_items_at(2) [OF wf' pre post w1] a w1 by simp
qed

text \<open>The examples of the specification: \<^verbatim>\<open>a\<close> with two trailing spaces before a line
  ending gives a hard break, with one trailing space a line suffix.\<close>

lemmas resolver_eval = well_formed_def data_addrs_def ws_items.simps(2) classify_def
  trailing_def suffix_token_def slice_of_def tk_def pt_def Let_def codes_defs
  hardBreakPrefixSizeMin_def merge_items_DataTok merged_def resolve_items_def

theorem C4_trailing_whitespace_witness:
  "whitespace_loop (slice_of [97, 32, 32]) 1
     \<lparr>r_events = [(Enter, 0), (Exit, 0), (Enter, 1), (Exit, 1)],
      r_tokens = [tk ''data'' 0 3, tk ''lineEnding'' 3 4]\<rparr> =
     \<lparr>r_events = [(Enter, 0), (Exit, 0), (Enter, 2), (Exit, 2), (Enter, 1), (Exit, 1)],
      r_tokens = [tk ''data'' 0 1, tk ''lineEnding'' 3 4, tk ''hardBreakTrailing'' 1 3]\<rparr>
   \<and> whitespace_loop (slice_of [97, 32]) 1
     \<lparr>r_events = [(Enter, 0), (Exit, 0), (Enter, 1), (Exit, 1)],
      r_tokens = [tk ''data'' 0 2, tk ''lineEnding'' 2 3]\<rparr> =
     \<lparr>r_events = [(Enter, 0), (Exit, 0), (Enter, 2), (Exit, 2), (Enter, 1), (Exit, 1)],
      r_tokens = [tk ''data'' 0 1, tk ''lineEnding'' 2 3, tk ''lineSuffix'' 1 2]\<rparr>"
proof -
  have wf1: "well_formed [DataTok 0, LineEnd 1] [tk ''data'' 0 3, tk ''lineEnding'' 3 4]"
    by (simp add: resolver_eval)
  have wf2: "well_formed [DataTok 0, LineEnd 1] [tk ''data'' 0 2, tk ''lineEnding'' 2 3]"
    by (simp add: resolver_eval)
  have e1: "ws_items (slice_of [97, 32, 32]) [DataTok 0, LineEnd 1]
        [tk ''data'' 0 3, tk ''lineEnding'' 3 4] =
      ([DataTok 0, Other (Enter, 2), Other (Exit, 2), LineEnd 1],
       [tk ''data'' 0 1, tk ''lineEnding'' 3 4, tk ''hardBreakTrailing'' 1 3])"
    by (simp add: resolver_eval)
  have e2: "ws_items (slice_of [97, 32]) [DataTok 0, LineEnd 1]
        [tk ''data'' 0 2, tk ''lineEnding'' 2 3] =
      ([DataTok 0, Other (Enter, 2), Other (Exit, 2), LineEnd 1],
       [tk ''data'' 0 1, tk ''lineEnding'' 2 3, tk ''lineSuffix'' 1 2])"
    by (simp add: resolver_eval)
  note r1 = C4_trailing_whitespace [OF wf1, of "slice_of [97, 32, 32]", THEN conjunct1,
      unfolded e1 fst_conv snd_conv flat.simps]
  note r2 = C4_trailing_whitespace [OF wf2, of "slice_of [97, 32]", THEN conjunct1,
      unfolded e2 fst_conv snd_conv flat.simps]
  from r1 r2 show ?thesis by (rule conjI)
qed

text \<open>
  Claim C5. On an event list of the tokenizer, the first loop of the resolver is the merge
  pass of the specification: every maximal run of two or more consecutive data tokens
  becomes one data token, which has the start of the first and the end of the last, the
  events of the others are removed, and no two data tokens are adjacent afterwards.
\<close>

theorem C5_merge_pass:
  "well_formed items h \<Longrightarrow>
     merge_loop 0 None \<lparr>r_events = flat items, r_tokens = h\<rparr> =
       \<lparr>r_events = flat (fst (merge_items items h)), r_tokens = snd (merge_items items h)\<rparr>
   \<and> no_adjacent (fst (merge_items items h))
   \<and> (\<forall>pre a rn post.
         items = pre @ DataTok a # map DataTok rn @ post \<and> rn \<noteq> []
         \<and> (pre = [] \<or> \<not> is_DataTok (last pre)) \<and> (post = [] \<or> \<not> is_DataTok (hd post)) \<longrightarrow>
         fst (merge_items items h) =
           fst (merge_items pre h) @
           DataTok a # fst (merge_items post (merged a rn (snd (merge_items pre h))))
         \<and> snd (merge_items items h) ! a = (h ! a)\<lparr>t_end := t_end (h ! last rn)\<rparr>
         \<and> t_start (snd (merge_items items h) ! a) = t_start (h ! a)
         \<and> t_type (snd (merge_items items h) ! a) = ''data'')"
proof (intro conjI allI impI)
  assume wf: "well_formed items h"
  show "merge_loop 0 None \<lparr>r_events = flat items, r_tokens = h\<rparr> =
       \<lparr>r_events = flat (fst (merge_items items h)), r_tokens = snd (merge_items items h)\<rparr>"
    using merge_refine_top [of h items] wf by (simp add: well_formed_def split: prod.splits)
  show "no_adjacent (fst (merge_items items h))"
    using merge_items_invariant [OF wf, of "fst (merge_items items h)" "snd (merge_items items h)"]
    by simp
next
  fix pre a rn post
  assume wf: "well_formed items h"
    and a: "items = pre @ DataTok a # map DataTok rn @ post \<and> rn \<noteq> []
         \<and> (pre = [] \<or> \<not> is_DataTok (last pre)) \<and> (post = [] \<or> \<not> is_DataTok (hd post))"
  from a wf have wf': "well_formed (pre @ DataTok a # map DataTok rn @ post) h" by simp
  from a have rn: "rn \<noteq> []" and pre: "pre = [] \<or> \<not> is_DataTok (last pre)"
    and post: "post = [] \<or> \<not> is_DataTok (hd post)" by simp_all
  from wf' have ty: "t_type (h ! a) = ''data''" by (simp add: well_formed_def)
  show "fst (merge_items items h) =
           fst (merge_items pre h) @
           DataTok a # fst (merge_items post (merged a rn (snd (merge_items pre h))))"
    using merge_items_run(1) [OF wf' rn pre post] a by simp
  show eq: "snd (merge_items items h) ! a = (h ! a)\<lparr>t_end := t_end (h ! last rn)\<rparr>"
    using merge_items_run(2) [OF wf' rn pre post] a by simp
  show "t_start (snd (merge_items items h) ! a) = t_start (h ! a)"
    by (simp add: eq)
  show "t_type (snd (merge_items items h) ! a) = ''data''"
    by (simp add: eq ty)
qed

text \<open>\<^verbatim>\<open><div>hi</div>\<close> and a line ending, with \<^verbatim>\<open>hi\<close> emitted as the two data tokens
  \<^verbatim>\<open>h\<close> and \<^verbatim>\<open>i\<close>.\<close>

theorem C5_merge_pass_witness:
  "merge_loop 0 None
     \<lparr>r_events = [(Enter, 0), (Exit, 0), (Enter, 1), (Exit, 1), (Enter, 2), (Exit, 2),
                   (Enter, 3), (Exit, 3), (Enter, 4), (Exit, 4)],
      r_tokens = [tk ''mdxJsxFlowTag'' 0 5, tk ''data'' 5 6, tk ''data'' 6 7,
                  tk ''mdxJsxFlowTag'' 7 13, tk ''lineEnding'' 13 14]\<rparr> =
     \<lparr>r_events = [(Enter, 0), (Exit, 0), (Enter, 1), (Exit, 1),
                   (Enter, 3), (Exit, 3), (Enter, 4), (Exit, 4)],
      r_tokens = [tk ''mdxJsxFlowTag'' 0 5, tk ''data'' 5 7, tk ''data'' 6 7,
                  tk ''mdxJsxFlowTag'' 7 13, tk ''lineEnding'' 13 14]\<rparr>"
proof -
  let ?items = "[Other (Enter, 0), Other (Exit, 0), DataTok 1, DataTok 2,
      Other (Enter, 3), Other (Exit, 3), LineEnd 4]"
  let ?h = "[tk ''mdxJsxFlowTag'' 0 5, tk ''data'' 5 6, tk ''data'' 6 7,
      tk ''mdxJsxFlowTag'' 7 13, tk ''lineEnding'' 13 14]"
  have wf: "well_formed ?items ?h" by (simp add: resolver_eval)
  have e: "merge_items ?items ?h =
      ([Other (Enter, 0), Other (Exit, 0), DataTok 1, Other (Enter, 3), Other (Exit, 3), LineEnd 4],
       [tk ''mdxJsxFlowTag'' 0 5, tk ''data'' 5 7, tk ''data'' 6 7,
        tk ''mdxJsxFlowTag'' 7 13, tk ''lineEnding'' 13 14])"
    by (simp add: resolver_eval)
  show ?thesis
    by (rule C5_merge_pass [OF wf, THEN conjunct1, unfolded e fst_conv snd_conv flat.simps])
qed

text \<open>
  Claim C6. The resolver is idempotent on the event lists of the tokenizer: run on its own
  output, the merge loop merges nothing, the whitespace loop reclassifies nothing, and the
  result is the same events over the same tokens.
\<close>

theorem C6_resolver_idempotent:
  "well_formed items h \<Longrightarrow>
     resolveJsxFlow slice (resolveJsxFlow slice \<lparr>r_events = flat items, r_tokens = h\<rparr>) =
       resolveJsxFlow slice \<lparr>r_events = flat items, r_tokens = h\<rparr>
   \<and> merge_loop 0 None (resolveJsxFlow slice \<lparr>r_events = flat items, r_tokens = h\<rparr>) =
       resolveJsxFlow slice \<lparr>r_events = flat items, r_tokens = h\<rparr>
   \<and> whitespace_loop slice 1 (resolveJsxFlow slice \<lparr>r_events = flat items, r_tokens = h\<rparr>) =
       resolveJsxFlow slice \<lparr>r_events = flat items, r_tokens = h\<rparr>"
proof -
  assume wf: "well_formed items h"
  obtain out h2 where r: "resolve_items slice items h = (out, h2)"
    by (cases "resolve_items slice items h")
  from resolve_refine [OF wf, of slice] r
  have res: "resolveJsxFlow slice \<lparr>r_events = flat items, r_tokens = h\<rparr> =
      \<lparr>r_events = flat out, r_tokens = h2\<rparr>" by simp
  from resolve_items_fixed [OF wf r]
  have wf2: "well_formed out h2" and m: "merge_items out h2 = (out, h2)"
    and w: "ws_items slice out h2 = (out, h2)" by simp_all
  have 1: "merge_loop 0 None \<lparr>r_events = flat out, r_tokens = h2\<rparr> =
      \<lparr>r_events = flat out, r_tokens = h2\<rparr>"
    using merge_refine_top [of h2 out] wf2 m by (simp add: well_formed_def)
  have 2: "whitespace_loop slice 1 \<lparr>r_events = flat out, r_tokens = h2\<rparr> =
      \<lparr>r_events = flat out, r_tokens = h2\<rparr>"
    using ws_refine_top [OF well_formed_wf_rest [OF wf2], of slice] w by simp
  show ?thesis
    using 1 2 by (simp add: res) (simp add: resolveJsxFlow_def)
qed

text \<open>\<^verbatim>\<open>hi\<close>, two spaces, a line ending and \<^verbatim>\<open>x\<close>, with \<^verbatim>\<open>h\<close> and \<^verbatim>\<open>i\<close> followed by
  the spaces as two data tokens: the first run merges them and splits the hard break off;
  the second run leaves its result as it is.\<close>

theorem C6_resolver_idempotent_witness:
  "resolveJsxFlow (slice_of [104, 105, 32, 32, 10, 120])
     \<lparr>r_events = [(Enter, 0), (Exit, 0), (Enter, 1), (Exit, 1), (Enter, 2), (Exit, 2),
                   (Enter, 3), (Exit, 3)],
      r_tokens = [tk ''data'' 0 1, tk ''data'' 1 4, tk ''lineEnding'' 4 5, tk ''data'' 5 6]\<rparr> =
     \<lparr>r_events = [(Enter, 0), (Exit, 0), (Enter, 4), (Exit, 4), (Enter, 2), (Exit, 2),
                   (Enter, 3), (Exit, 3)],
      r_tokens = [tk ''data'' 0 2, tk ''data'' 1 4, tk ''lineEnding'' 4 5, tk ''data'' 5 6,
                  tk ''hardBreakTrailing'' 2 4]\<rparr>
   \<and> resolveJsxFlow (slice_of [104, 105, 32, 32, 10, 120])
     \<lparr>r_events = [(Enter, 0), (Exit, 0), (Enter, 4), (Exit, 4), (Enter, 2), (Exit, 2),
                   (Enter, 3), (Exit, 3)],
      r_tokens = [tk ''data'' 0 2, tk ''data'' 1 4, tk ''lineEnding'' 4 5, tk ''data'' 5 6,
                  tk ''hardBreakTrailing'' 2 4]\<rparr> =
     \<lparr>r_events = [(Enter, 0), (Exit, 0), (Enter, 4), (Exit, 4), (Enter, 2), (Exit, 2),
                   (Enter, 3), (Exit, 3)],
      r_tokens = [tk ''data'' 0 2, tk ''data'' 1 4, tk ''lineEnding'' 4 5, tk ''data'' 5 6,
                  tk ''hardBreakTrailing'' 2 4]\<rparr>"
proof -
  let ?sl = "slice_of [104, 105, 32, 32, 10, 120]"
  let ?items = "[DataTok 0, DataTok 1, LineEnd 2, DataTok 3]"
  let ?h = "[tk ''data'' 0 1, tk ''data'' 1 4, tk ''lineEnding'' 4 5, tk ''data'' 5 6]"
  have wf: "well_formed ?items ?h" by (simp add: resolver_eval)
  have e: "resolve_items ?sl ?items ?h =
      ([DataTok 0, Other (Enter, 4), Other (Exit, 4), LineEnd 2, DataTok 3],
       [tk ''data'' 0 2, tk ''data'' 1 4, tk ''lineEnding'' 4 5, tk ''data'' 5 6,
        tk ''hardBreakTrailing'' 2 4])"
    by (simp add: resolver_eval)
  note r = resolve_refine [OF wf, of ?sl, unfolded e prod.case flat.simps]
  note i = C6_resolver_idempotent [OF wf, of ?sl, THEN conjunct1, unfolded flat.simps r]
  from r i show ?thesis by (rule conjI)
qed

end
